theory Spec2Isabelle
  imports Complex_Main
begin

section \<open>JavaScript numbers\<close>

text \<open>
  \<^verbatim>\<open>src/calculator.js\<close> computes with JavaScript numbers. A number is modelled as a
  finite real or one of the three special values of IEEE arithmetic. The operations follow
  the IEEE rules for the special values (\<open>0/0\<close> and \<open>\<infinity> - \<infinity>\<close> are \<open>NaN\<close>, every
  comparison with \<open>NaN\<close> is false, \<open>Math.log(0)\<close> is \<open>-\<infinity>\<close>), so that nothing the
  source divides by or takes a logarithm of is silently given HOL's value. On finite
  values the arithmetic is exact: rounding to 53 bits, overflow and the sign of zero are
  not modelled (a zero divisor counts as \<open>+0\<close>).
\<close>

datatype jsnum = Fin real | PInf | NInf | NaN

fun js_neg :: "jsnum \<Rightarrow> jsnum" where
  "js_neg (Fin a) = Fin (- a)"
| "js_neg PInf = NInf"
| "js_neg NInf = PInf"
| "js_neg NaN = NaN"

fun js_add :: "jsnum \<Rightarrow> jsnum \<Rightarrow> jsnum" where
  "js_add (Fin a) (Fin b) = Fin (a + b)"
| "js_add NaN y = NaN"
| "js_add x NaN = NaN"
| "js_add PInf NInf = NaN"
| "js_add NInf PInf = NaN"
| "js_add PInf y = PInf"
| "js_add x PInf = PInf"
| "js_add NInf y = NInf"
| "js_add x NInf = NInf"

definition js_sub :: "jsnum \<Rightarrow> jsnum \<Rightarrow> jsnum" where
  "js_sub x y = js_add x (js_neg y)"

text \<open>The sign of an infinity scaled by a finite factor; \<open>\<infinity> * 0\<close> is \<open>NaN\<close>.\<close>

definition inf_times :: "bool \<Rightarrow> real \<Rightarrow> jsnum" where
  "inf_times pos a =
     (if a = 0 then NaN else if (0 < a) = pos then PInf else NInf)"

fun js_mul :: "jsnum \<Rightarrow> jsnum \<Rightarrow> jsnum" where
  "js_mul (Fin a) (Fin b) = Fin (a * b)"
| "js_mul NaN y = NaN"
| "js_mul x NaN = NaN"
| "js_mul (Fin a) PInf = inf_times True a"
| "js_mul (Fin a) NInf = inf_times False a"
| "js_mul PInf (Fin b) = inf_times True b"
| "js_mul NInf (Fin b) = inf_times False b"
| "js_mul PInf PInf = PInf"
| "js_mul NInf NInf = PInf"
| "js_mul PInf NInf = NInf"
| "js_mul NInf PInf = NInf"

fun js_div :: "jsnum \<Rightarrow> jsnum \<Rightarrow> jsnum" where
  "js_div (Fin a) (Fin b) =
     (if b = 0 then (if a = 0 then NaN else if 0 < a then PInf else NInf)
      else Fin (a / b))"
| "js_div NaN y = NaN"
| "js_div x NaN = NaN"
| "js_div (Fin a) PInf = Fin 0"
| "js_div (Fin a) NInf = Fin 0"
| "js_div PInf (Fin b) = (if 0 \<le> b then PInf else NInf)"
| "js_div NInf (Fin b) = (if 0 \<le> b then NInf else PInf)"
| "js_div PInf PInf = NaN"
| "js_div PInf NInf = NaN"
| "js_div NInf PInf = NaN"
| "js_div NInf NInf = NaN"

text \<open>\<^verbatim>\<open>x ** 2\<close>.\<close>

definition js_pow2 :: "jsnum \<Rightarrow> jsnum" where
  "js_pow2 x = js_mul x x"

fun js_sqrt :: "jsnum \<Rightarrow> jsnum" where
  "js_sqrt (Fin a) = (if a < 0 then NaN else Fin (sqrt a))"
| "js_sqrt PInf = PInf"
| "js_sqrt NInf = NaN"
| "js_sqrt NaN = NaN"

text \<open>\<^verbatim>\<open>Math.log\<close>: \<open>-\<infinity>\<close> at zero, \<open>NaN\<close> below it.\<close>

fun js_log :: "jsnum \<Rightarrow> jsnum" where
  "js_log (Fin a) = (if a < 0 then NaN else if a = 0 then NInf else Fin (ln a))"
| "js_log PInf = PInf"
| "js_log NInf = NaN"
| "js_log NaN = NaN"

text \<open>\<^verbatim>\<open>x < y\<close>; \<^verbatim>\<open>x > y\<close> is \<open>js_lt y x\<close>.\<close>

fun js_lt :: "jsnum \<Rightarrow> jsnum \<Rightarrow> bool" where
  "js_lt (Fin a) (Fin b) = (a < b)"
| "js_lt NaN y = False"
| "js_lt x NaN = False"
| "js_lt PInf y = False"
| "js_lt x NInf = False"
| "js_lt x PInf = True"
| "js_lt NInf y = True"

text \<open>\<^verbatim>\<open>Math.max(x, y)\<close> and \<^verbatim>\<open>Math.min(x, y)\<close>: \<open>NaN\<close> when either argument is.\<close>

definition js_max :: "jsnum \<Rightarrow> jsnum \<Rightarrow> jsnum" where
  "js_max x y = (if x = NaN \<or> y = NaN then NaN else if js_lt x y then y else x)"

definition js_min :: "jsnum \<Rightarrow> jsnum \<Rightarrow> jsnum" where
  "js_min x y = (if x = NaN \<or> y = NaN then NaN else if js_lt y x then y else x)"

text \<open>\<^verbatim>\<open>Math.round\<close> rounds half up: \<open>floor (x + 0.5)\<close>.\<close>

fun js_round :: "jsnum \<Rightarrow> jsnum" where
  "js_round (Fin a) = Fin (of_int \<lfloor>a + 1 / 2\<rfloor>)"
| "js_round x = x"

text \<open>\<^verbatim>\<open>x || d\<close>: the number \<open>x\<close> is falsy when it is zero or \<open>NaN\<close>.\<close>

definition js_or :: "jsnum \<Rightarrow> jsnum \<Rightarrow> jsnum" where
  "js_or x d = (if x = Fin 0 \<or> x = NaN then d else x)"

definition isFinite :: "jsnum \<Rightarrow> bool" where
  "isFinite x = (case x of Fin a \<Rightarrow> True | _ \<Rightarrow> False)"

section \<open>Data\<close>

text \<open>
  A data point \<^verbatim>\<open>{n, time}\<close>; a thrown value with the name of its class and its
  message; a candidate model \<^verbatim>\<open>{type, rmse, complexity}\<close>; the object
  \<^verbatim>\<open>{bestFit, confidence, results}\<close> that \<^verbatim>\<open>determineComplexity\<close> returns.
\<close>

record dataPoint =
  dp_n :: int
  dp_time :: jsnum

datatype exn = JsError string string

record model =
  mtype :: string
  rmse :: jsnum
  complexity :: nat

record analysis =
  bestFit :: string
  confidence :: jsnum
  results :: "(string \<times> jsnum) list"

section \<open>The statistics library\<close>

text \<open>
  Modelled from the spec: the functions \<^verbatim>\<open>ss.mean\<close>, \<^verbatim>\<open>ss.variance\<close>, \<^verbatim>\<open>ss.max\<close>,
  \<^verbatim>\<open>ss.linearRegression\<close> and \<^verbatim>\<open>ss.linearRegressionLine\<close> of the package
  \<^verbatim>\<open>simple-statistics\<close>, which is required by \<^verbatim>\<open>src/calculator.js\<close> and is not part of the
  sources. The mean is the sample mean, the variance is the mean squared deviation from
  the mean, the regression is ordinary least squares in one variable, computed from the
  four sums. The three statistics refuse an empty sample with an \<^verbatim>\<open>Error\<close>.
\<close>

definition ss_sum :: "jsnum list \<Rightarrow> jsnum" where
  "ss_sum x = foldl js_add (Fin 0) x"

definition ss_mean :: "jsnum list \<Rightarrow> exn + jsnum" where
  "ss_mean x =
     (if x = [] then Inl (JsError ''Error'' ''mean requires at least one data point'')
      else Inr (js_div (ss_sum x) (Fin (real (length x)))))"

definition ss_variance :: "jsnum list \<Rightarrow> exn + jsnum" where
  "ss_variance x =
     (case ss_mean x of
        Inl e \<Rightarrow> Inl (JsError ''Error'' ''variance requires at least one data point'')
      | Inr meanValue \<Rightarrow>
          Inr (js_div (ss_sum (map (\<lambda>v. js_pow2 (js_sub v meanValue)) x))
                 (Fin (real (length x)))))"

definition ss_max :: "jsnum list \<Rightarrow> exn + jsnum" where
  "ss_max x =
     (case x of
        [] \<Rightarrow> Inl (JsError ''Error'' ''max requires at least one data point'')
      | v # vs \<Rightarrow> Inr (foldl (\<lambda>value y. if js_lt value y then y else value) v vs))"

text \<open>The four running sums of the regression: \<open>(sumX, sumY, sumXX, sumXY)\<close>.\<close>

fun regressionSums ::
  "jsnum \<times> jsnum \<times> jsnum \<times> jsnum \<Rightarrow> (jsnum \<times> jsnum) list \<Rightarrow> jsnum \<times> jsnum \<times> jsnum \<times> jsnum"
where
  "regressionSums acc [] = acc"
| "regressionSums (sumX, sumY, sumXX, sumXY) ((x, y) # ps) =
     regressionSums
       (js_add sumX x, js_add sumY y, js_add sumXX (js_mul x x), js_add sumXY (js_mul x y)) ps"

text \<open>The slope \<open>m\<close> and the intercept \<open>b\<close>; a single point gives the horizontal line through it.\<close>

definition linearRegression :: "(jsnum \<times> jsnum) list \<Rightarrow> jsnum \<times> jsnum" where
  "linearRegression data =
     (case data of
        [(x, y)] \<Rightarrow> (Fin 0, y)
      | _ \<Rightarrow>
         (let dataLength = Fin (real (length data));
              (sumX, sumY, sumXX, sumXY) = regressionSums (Fin 0, Fin 0, Fin 0, Fin 0) data;
              m = js_div (js_sub (js_mul dataLength sumXY) (js_mul sumX sumY))
                    (js_sub (js_mul dataLength sumXX) (js_mul sumX sumX));
              b = js_sub (js_div sumY dataLength) (js_div (js_mul m sumX) dataLength)
          in (m, b)))"

definition linearRegressionLine :: "jsnum \<times> jsnum \<Rightarrow> jsnum \<Rightarrow> jsnum" where
  "linearRegressionLine mb x = js_add (snd mb) (js_mul (fst mb) x)"

section \<open>The classifier\<close>

text \<open>
  \<^verbatim>\<open>calculateRMSE\<close>: \<^verbatim>\<open>actual.reduce((sum, val, i) => sum + (val - predicted[i]) ** 2, 0)\<close>,
  then the root of the mean. Past the end of \<^verbatim>\<open>predicted\<close> the read is \<^verbatim>\<open>undefined\<close> and
  the difference is \<open>NaN\<close>.
\<close>

fun sumSquaredErrors :: "jsnum \<Rightarrow> jsnum list \<Rightarrow> jsnum list \<Rightarrow> jsnum" where
  "sumSquaredErrors s [] predicted = s"
| "sumSquaredErrors s (v # actual) [] =
     sumSquaredErrors (js_add s (js_pow2 (js_sub v NaN))) actual []"
| "sumSquaredErrors s (v # actual) (p # predicted) =
     sumSquaredErrors (js_add s (js_pow2 (js_sub v p))) actual predicted"

definition calculateRMSE :: "jsnum list \<Rightarrow> jsnum list \<Rightarrow> jsnum" where
  "calculateRMSE actual predicted =
     js_sqrt (js_div (sumSquaredErrors (Fin 0) actual predicted) (Fin (real (length actual))))"

text \<open>The helper \<^verbatim>\<open>getRegressionRMSE\<close>: every data point goes into the regression.\<close>

definition getRegressionRMSE :: "(int \<Rightarrow> jsnum) \<Rightarrow> dataPoint list \<Rightarrow> jsnum" where
  "getRegressionRMSE transformFn dataPoints =
     (let data = map (\<lambda>d. (transformFn (dp_n d), dp_time d)) dataPoints;
          line = linearRegressionLine (linearRegression data);
          predictions = map (\<lambda>d. line (transformFn (dp_n d))) dataPoints
      in calculateRMSE (map dp_time dataPoints) predictions)"

text \<open>The four transforms: \<open>n\<close>, \<open>n ** 2\<close>, \<open>Math.log(n)\<close>, \<open>n * Math.log(n)\<close>.\<close>

definition tr_linear :: "int \<Rightarrow> jsnum" where
  "tr_linear k = Fin (of_int k)"

definition tr_quadratic :: "int \<Rightarrow> jsnum" where
  "tr_quadratic k = js_pow2 (Fin (of_int k))"

definition tr_log :: "int \<Rightarrow> jsnum" where
  "tr_log k = js_log (Fin (of_int k))"

definition tr_nlogn :: "int \<Rightarrow> jsnum" where
  "tr_nlogn k = js_mul (Fin (of_int k)) (js_log (Fin (of_int k)))"

text \<open>The array \<^verbatim>\<open>models\<close> as it is built, before it is sorted.\<close>

definition buildModels :: "jsnum \<Rightarrow> dataPoint list \<Rightarrow> model list" where
  "buildModels meanTime dataPoints =
     (let timeValues = map dp_time dataPoints;
          constantPredictions = map (\<lambda>k. meanTime) (map dp_n dataPoints);
          constantRMSE = calculateRMSE timeValues constantPredictions;
          linearRMSE = getRegressionRMSE tr_linear dataPoints;
          quadraticRMSE = getRegressionRMSE tr_quadratic dataPoints;
          logRMSE = getRegressionRMSE tr_log dataPoints;
          nLogNRMSE = getRegressionRMSE tr_nlogn dataPoints
      in [\<lparr>mtype = ''O(1) - Constant'', rmse = constantRMSE, complexity = 1\<rparr>,
          \<lparr>mtype = ''O(log n) - Logarithmic'', rmse = logRMSE, complexity = 2\<rparr>,
          \<lparr>mtype = ''O(n) - Linear'', rmse = linearRMSE, complexity = 3\<rparr>,
          \<lparr>mtype = ''O(n log n) - Linear-ithmic'', rmse = nLogNRMSE, complexity = 4\<rparr>,
          \<lparr>mtype = ''O(n^2) - Quadratic'', rmse = quadraticRMSE, complexity = 5\<rparr>])"

text \<open>
  \<^verbatim>\<open>Array.prototype.sort\<close> with a comparator is stable, and a comparator result of \<open>NaN\<close>
  counts as \<open>+0\<close>. On a consistent comparator the outcome is the one stable arrangement,
  computed here by insertion: \<open>x\<close> moves behind \<open>y\<close> only when \<open>cmp x y > 0\<close>. (Where
  \<open>NaN\<close> makes the comparator inconsistent the language leaves the order to the engine.)
\<close>

fun sortInsert :: "('a \<Rightarrow> 'a \<Rightarrow> jsnum) \<Rightarrow> 'a \<Rightarrow> 'a list \<Rightarrow> 'a list" where
  "sortInsert cmp x [] = [x]"
| "sortInsert cmp x (y # ys) =
     (if js_lt (Fin 0) (cmp x y) then y # sortInsert cmp x ys else x # y # ys)"

definition arraySort :: "('a \<Rightarrow> 'a \<Rightarrow> jsnum) \<Rightarrow> 'a list \<Rightarrow> 'a list" where
  "arraySort cmp xs = foldr (sortInsert cmp) xs []"

definition byRmse :: "model \<Rightarrow> model \<Rightarrow> jsnum" where
  "byRmse a b = js_sub (rmse a) (rmse b)"

text \<open>\<^verbatim>\<open>String.prototype.includes\<close>.\<close>

fun startsWith :: "string \<Rightarrow> string \<Rightarrow> bool" where
  "startsWith s [] = True"
| "startsWith [] (c # sub) = False"
| "startsWith (d # s) (c # sub) = (d = c \<and> startsWith s sub)"

fun str_includes :: "string \<Rightarrow> string \<Rightarrow> bool" where
  "str_includes [] sub = (sub = [])"
| "str_includes (d # s) sub = (startsWith (d # s) sub \<or> str_includes s sub)"

definition tolerance :: jsnum where
  "tolerance = Fin (15 / 100)"

definition noiseFloor :: jsnum where
  "noiseFloor = Fin (1 / 10 ^ 9)"

text \<open>
  One round of the loop over \<^verbatim>\<open>models[1..]\<close>: the simpler candidate within the tolerance
  of the current best replaces it; then a best model of type \<^verbatim>\<open>O(log n)\<close> gives way to
  \<^verbatim>\<open>O(1)\<close> when that one's error is below three times its own and its own is below a
  tenth of the signal.
\<close>

definition occamStep :: "model list \<Rightarrow> jsnum \<Rightarrow> model \<Rightarrow> model \<Rightarrow> model" where
  "occamStep models meanTime candidate bestModel =
     (let best1 =
        (if complexity candidate < complexity bestModel then
           (let diff = js_div (js_sub (rmse candidate) (rmse bestModel))
                         (js_or (rmse bestModel) (Fin (1 / 10 ^ 9)))
            in if js_lt diff tolerance then candidate else bestModel)
         else bestModel)
      in if str_includes (mtype best1) ''O(log n)'' then
           (case find (\<lambda>m. str_includes (mtype m) ''O(1)'') models of
              None \<Rightarrow> best1
            | Some o1_model \<Rightarrow>
                if js_lt (rmse o1_model) (js_mul (rmse best1) (Fin 3)) then
                  (let signalMagnitude = (if js_lt (Fin 0) meanTime then meanTime else Fin 1);
                       normalizedError = js_div (rmse best1) signalMagnitude
                   in if js_lt normalizedError (Fin (1 / 10)) then o1_model else best1)
                else best1)
         else best1)"

text \<open>The confidence of the chosen model, before \<^verbatim>\<open>Math.round\<close>.\<close>

definition secondBestOf :: "model list \<Rightarrow> model \<Rightarrow> model option" where
  "secondBestOf sortedByFit bestModel =
     (case sortedByFit of
        [] \<Rightarrow> None
      | s0 # rest \<Rightarrow>
          if s0 = bestModel then (case rest of [] \<Rightarrow> None | s1 # rest' \<Rightarrow> Some s1)
          else Some s0)"

definition separationOf :: "model list \<Rightarrow> model \<Rightarrow> jsnum" where
  "separationOf models bestModel =
     (case secondBestOf (arraySort byRmse models) bestModel of
        None \<Rightarrow> Fin 0
      | Some secondBest \<Rightarrow>
          js_min (Fin 1)
            (js_div (js_sub (rmse secondBest) (rmse bestModel)) (js_or (rmse secondBest) (Fin 1))))"

definition confidenceOf :: "model list \<Rightarrow> jsnum \<Rightarrow> model \<Rightarrow> jsnum" where
  "confidenceOf models meanTime bestModel =
     (if js_lt (rmse bestModel) noiseFloor then Fin 100
      else
        (let signalMagnitude = (if js_lt (Fin 0) meanTime then meanTime else Fin 1);
             normalizedError = js_div (rmse bestModel) signalMagnitude;
             fitQuality = js_max (Fin 0) (js_sub (Fin 1) (js_mul normalizedError (Fin 2)));
             separation = separationOf models bestModel
         in js_mul (js_add (js_mul fitQuality (Fin (7 / 10))) (js_mul separation (Fin (3 / 10))))
              (Fin 100)))"

text \<open>
  \<^verbatim>\<open>determineComplexity\<close>, in three parts: from the sorted array \<^verbatim>\<open>models\<close> on,
  \<open>chooseModel\<close> is the loop with the final check, which leave \<^verbatim>\<open>bestModel\<close>, and
  \<open>analyse\<close> adds the confidence and builds the result. The reads
  that would fail on \<^verbatim>\<open>undefined\<close> (\<^verbatim>\<open>models[0]\<close> of an empty array, a \<^verbatim>\<open>find\<close>
  without a match) are branches that raise a \<^verbatim>\<open>TypeError\<close>.
\<close>

definition typeError :: exn where
  "typeError = JsError ''TypeError'' ''Cannot read properties of undefined''"

definition chooseModel :: "model list \<Rightarrow> jsnum \<Rightarrow> jsnum list \<Rightarrow> exn + model" where
  "chooseModel models meanTime timeValues =
     (case models of
        [] \<Rightarrow> Inl typeError
      | m0 # rest \<Rightarrow>
         (let bestLoop = fold (occamStep models meanTime) rest m0 in
          case ss_variance timeValues of
            Inl e \<Rightarrow> Inl e
          | Inr timeVariance \<Rightarrow>
             (case ss_max timeValues of
                Inl e \<Rightarrow> Inl e
              | Inr maxTime \<Rightarrow>
                 (let override = (js_lt maxTime (Fin (1 / 1000)) \<and>
                                  js_lt (js_div timeVariance meanTime) (Fin (1 / 10)));
                      found = (if override
                               then find (\<lambda>m. str_includes (mtype m) ''O(1)'') models
                               else Some bestLoop)
                  in case found of
                       None \<Rightarrow> Inl typeError
                     | Some bestModel \<Rightarrow> Inr bestModel))))"

definition analyse :: "model list \<Rightarrow> jsnum \<Rightarrow> jsnum list \<Rightarrow> exn + analysis" where
  "analyse models meanTime timeValues =
     (case chooseModel models meanTime timeValues of
        Inl e \<Rightarrow> Inl e
      | Inr bestModel \<Rightarrow>
          Inr \<lparr>bestFit = mtype bestModel,
               confidence = js_round (confidenceOf models meanTime bestModel),
               results = arraySort (\<lambda>a b. js_sub (snd a) (snd b))
                           (map (\<lambda>m. (mtype m, rmse m)) models)\<rparr>)"

definition determineComplexity :: "dataPoint list \<Rightarrow> exn + analysis" where
  "determineComplexity dataPoints =
     (let timeValues = map dp_time dataPoints in
      case ss_mean timeValues of
        Inl e \<Rightarrow> Inl e
      | Inr meanTime \<Rightarrow>
          analyse (arraySort byRmse (buildModels meanTime dataPoints)) meanTime timeValues)"

section \<open>The classifier on a store\<close>

text \<open>
  The pure functions above give the value that \<^verbatim>\<open>determineComplexity\<close> returns. Its
  effects are the arrays and objects it creates and the arrays it sorts in place; they are
  modelled on a store. An address is an index into the list of cells, an array holds
  numbers and references, and an object is a cell of its own kind: a data point
  \<^verbatim>\<open>{n, time}\<close>, the \<^verbatim>\<open>{m, b}\<close> of a regression, a model
  \<^verbatim>\<open>{type, rmse, complexity}\<close>, an entry \<^verbatim>\<open>{type, rmse}\<close> of the results, and the
  returned \<^verbatim>\<open>{bestFit, confidence, results}\<close>, whose \<^verbatim>\<open>results\<close> is a reference.
\<close>

datatype val = Num jsnum | Ref nat

datatype cell =
    Arr "val list"
  | PointObj dataPoint
  | LineObj "jsnum \<times> jsnum"
  | ModelObj model
  | FitObj "string \<times> jsnum"
  | ResultObj string jsnum nat

type_synonym heap = "cell list"

text \<open>A step on the store returns a value or throws, and leaves a store.\<close>

type_synonym 'a heapOp = "heap \<Rightarrow> (exn + 'a) \<times> heap"

definition thenDo :: "'a heapOp \<Rightarrow> ('a \<Rightarrow> 'b heapOp) \<Rightarrow> 'b heapOp" where
  "thenDo f g h = (case f h of (Inl e, h1) \<Rightarrow> (Inl e, h1) | (Inr x, h1) \<Rightarrow> g x h1)"

definition give :: "'a \<Rightarrow> 'a heapOp" where
  "give x h = (Inr x, h)"

definition orThrow :: "exn + 'a \<Rightarrow> 'a heapOp" where
  "orThrow r h = (r, h)"

text \<open>An array literal, an object literal and the result of \<^verbatim>\<open>map\<close> are new cells.\<close>

definition alloc :: "cell \<Rightarrow> nat heapOp" where
  "alloc c h = (Inr (length h), h @ [c])"

fun allocAll :: "cell list \<Rightarrow> nat list heapOp" where
  "allocAll [] = give []"
| "allocAll (c # cs) = thenDo (alloc c) (\<lambda>a. thenDo (allocAll cs) (\<lambda>as. give (a # as)))"

text \<open>
  Reading. The input is taken in the shape the documentation of the function declares,
  an array of references to \<^verbatim>\<open>{n, time}\<close> objects; the model stops with a
  \<^verbatim>\<open>TypeError\<close> at a dangling reference and at a cell of another kind.
\<close>

definition cellAt :: "heap \<Rightarrow> val \<Rightarrow> cell option" where
  "cellAt h v = (case v of Ref a \<Rightarrow> (if a < length h then Some (h ! a) else None) | Num x \<Rightarrow> None)"

definition pointOf :: "heap \<Rightarrow> val \<Rightarrow> dataPoint option" where
  "pointOf h v = (case cellAt h v of Some (PointObj d) \<Rightarrow> Some d | _ \<Rightarrow> None)"

definition modelOf :: "heap \<Rightarrow> val \<Rightarrow> model option" where
  "modelOf h v = (case cellAt h v of Some (ModelObj m) \<Rightarrow> Some m | _ \<Rightarrow> None)"

definition fitOf :: "heap \<Rightarrow> val \<Rightarrow> (string \<times> jsnum) option" where
  "fitOf h v = (case cellAt h v of Some (FitObj f) \<Rightarrow> Some f | _ \<Rightarrow> None)"

definition elementsAt :: "heap \<Rightarrow> nat \<Rightarrow> val list option" where
  "elementsAt h a = (case cellAt h (Ref a) of Some (Arr vs) \<Rightarrow> Some vs | _ \<Rightarrow> None)"

definition allOf :: "('a \<Rightarrow> 'b option) \<Rightarrow> 'a list \<Rightarrow> 'b list option" where
  "allOf f xs = those (map f xs)"

definition pointsAt :: "heap \<Rightarrow> nat \<Rightarrow> dataPoint list option" where
  "pointsAt h a = (case elementsAt h a of None \<Rightarrow> None | Some vs \<Rightarrow> allOf (pointOf h) vs)"

definition readVia :: "(heap \<Rightarrow> val \<Rightarrow> 'a option) \<Rightarrow> nat \<Rightarrow> 'a list heapOp" where
  "readVia decode a h =
     (case elementsAt h a of
        None \<Rightarrow> (Inl typeError, h)
      | Some vs \<Rightarrow> (case allOf (decode h) vs of None \<Rightarrow> (Inl typeError, h) | Some xs \<Rightarrow> (Inr xs, h)))"

text \<open>
  \<^verbatim>\<open>array.sort((a, b) => a.rmse - b.rmse)\<close> on an array of references: the one write of
  the function to an existing cell. The cell of the array is overwritten with the sorted
  references.
\<close>

definition sortInPlace :: "(heap \<Rightarrow> val \<Rightarrow> jsnum option) \<Rightarrow> nat \<Rightarrow> unit heapOp" where
  "sortInPlace key a h =
     (case elementsAt h a of
        None \<Rightarrow> (Inl typeError, h)
      | Some vs \<Rightarrow>
          (Inr (), h[a := Arr (arraySort (\<lambda>x y. case (key h x, key h y) of
                                                  (Some p, Some q) \<Rightarrow> js_sub p q
                                                | _ \<Rightarrow> NaN) vs)]))"

definition rmseOfModel :: "heap \<Rightarrow> val \<Rightarrow> jsnum option" where
  "rmseOfModel h v = map_option rmse (modelOf h v)"

definition rmseOfFit :: "heap \<Rightarrow> val \<Rightarrow> jsnum option" where
  "rmseOfFit h v = map_option snd (fitOf h v)"

text \<open>
  \<^verbatim>\<open>getRegressionRMSE\<close>: the pairs and the array \<^verbatim>\<open>data\<close>, the object
  \<^verbatim>\<open>model\<close>, and the array \<^verbatim>\<open>predictions\<close> are created; \<^verbatim>\<open>dataPoints\<close> is read
  twice.
\<close>

definition regressionOnHeap :: "(int \<Rightarrow> jsnum) \<Rightarrow> nat \<Rightarrow> jsnum list \<Rightarrow> jsnum heapOp" where
  "regressionOnHeap transformFn dataPoints timeValues =
     thenDo (readVia pointOf dataPoints) (\<lambda>pts.
     thenDo (allocAll (map (\<lambda>d. Arr [Num (transformFn (dp_n d)), Num (dp_time d)]) pts)) (\<lambda>pairs.
     thenDo (alloc (Arr (map Ref pairs))) (\<lambda>data.
     (let line = linearRegressionLine
                   (linearRegression (map (\<lambda>d. (transformFn (dp_n d), dp_time d)) pts)) in
     thenDo (alloc (LineObj (linearRegression (map (\<lambda>d. (transformFn (dp_n d), dp_time d)) pts)))) (\<lambda>model.
     thenDo (readVia pointOf dataPoints) (\<lambda>pts'.
     thenDo (alloc (Arr (map (\<lambda>d. Num (line (transformFn (dp_n d)))) pts'))) (\<lambda>predictions.
     give (calculateRMSE timeValues (map (\<lambda>d. line (transformFn (dp_n d))) pts')))))))))"

text \<open>
  \<^verbatim>\<open>determineComplexity\<close> on the store, in the same parts as above: up to the array
  \<^verbatim>\<open>models\<close>; then, after \<^verbatim>\<open>models.sort\<close>, the choice, the copy
  \<^verbatim>\<open>[...models]\<close> that is sorted when the confidence is computed, the array
  \<^verbatim>\<open>results\<close> with its sort, and the returned object. The argument is the address of
  the array \<^verbatim>\<open>dataPoints\<close>, the value the address of the returned object.
\<close>

definition buildModelsOnHeap :: "nat \<Rightarrow> (jsnum \<times> jsnum list \<times> nat) heapOp" where
  "buildModelsOnHeap dataPoints =
     thenDo (readVia pointOf dataPoints) (\<lambda>pts1.
     thenDo (alloc (Arr (map (\<lambda>d. Num (Fin (of_int (dp_n d)))) pts1))) (\<lambda>nValues.
     thenDo (readVia pointOf dataPoints) (\<lambda>pts2.
     thenDo (alloc (Arr (map (\<lambda>d. Num (dp_time d)) pts2))) (\<lambda>timeValuesRef.
     (let timeValues = map dp_time pts2 in
     thenDo (orThrow (ss_mean timeValues)) (\<lambda>meanTime.
     thenDo (alloc (Arr (map (\<lambda>d. Num meanTime) pts1))) (\<lambda>constantPredictions.
     (let constantRMSE = calculateRMSE timeValues (map (\<lambda>d. meanTime) pts1) in
     thenDo (regressionOnHeap tr_linear dataPoints timeValues) (\<lambda>linearRMSE.
     thenDo (regressionOnHeap tr_quadratic dataPoints timeValues) (\<lambda>quadraticRMSE.
     thenDo (regressionOnHeap tr_log dataPoints timeValues) (\<lambda>logRMSE.
     thenDo (regressionOnHeap tr_nlogn dataPoints timeValues) (\<lambda>nLogNRMSE.
     thenDo (allocAll (map ModelObj
        [\<lparr>mtype = ''O(1) - Constant'', rmse = constantRMSE, complexity = 1\<rparr>,
         \<lparr>mtype = ''O(log n) - Logarithmic'', rmse = logRMSE, complexity = 2\<rparr>,
         \<lparr>mtype = ''O(n) - Linear'', rmse = linearRMSE, complexity = 3\<rparr>,
         \<lparr>mtype = ''O(n log n) - Linear-ithmic'', rmse = nLogNRMSE, complexity = 4\<rparr>,
         \<lparr>mtype = ''O(n^2) - Quadratic'', rmse = quadraticRMSE, complexity = 5\<rparr>])) (\<lambda>objects.
     thenDo (alloc (Arr (map Ref objects))) (\<lambda>models.
     give (meanTime, timeValues, models)))))))))))))))"

definition analyseOnHeap :: "nat \<Rightarrow> jsnum \<Rightarrow> jsnum list \<Rightarrow> nat heapOp" where
  "analyseOnHeap models meanTime timeValues =
     thenDo (readVia modelOf models) (\<lambda>sorted.
     thenDo (orThrow (chooseModel sorted meanTime timeValues)) (\<lambda>bestModel.
     thenDo (if js_lt (rmse bestModel) noiseFloor then give ()
             else thenDo (readVia (\<lambda>h v. Some v) models) (\<lambda>refs.
                  thenDo (alloc (Arr refs)) (\<lambda>sortedByFit.
                  sortInPlace rmseOfModel sortedByFit))) (\<lambda>u.
     (let confidence = confidenceOf sorted meanTime bestModel in
     thenDo (readVia modelOf models) (\<lambda>ms.
     thenDo (allocAll (map (\<lambda>m. FitObj (mtype m, rmse m)) ms)) (\<lambda>fitObjects.
     thenDo (alloc (Arr (map Ref fitObjects))) (\<lambda>results.
     thenDo (sortInPlace rmseOfFit results) (\<lambda>u.
     alloc (ResultObj (mtype bestModel) (js_round confidence) results)))))))))"

definition determineComplexityOnHeap :: "nat \<Rightarrow> nat heapOp" where
  "determineComplexityOnHeap dataPoints =
     thenDo (buildModelsOnHeap dataPoints) (\<lambda>(meanTime, timeValues, models).
     thenDo (sortInPlace rmseOfModel models) (\<lambda>u.
     analyseOnHeap models meanTime timeValues))"

text \<open>
  Reading a value back from the store: the array at an address with its elements decoded,
  and the returned object with its \<^verbatim>\<open>results\<close>, as the caller sees it.
\<close>

definition arrayOf :: "(heap \<Rightarrow> val \<Rightarrow> 'a option) \<Rightarrow> heap \<Rightarrow> nat \<Rightarrow> 'a list option" where
  "arrayOf decode h a = (case elementsAt h a of None \<Rightarrow> None | Some vs \<Rightarrow> allOf (decode h) vs)"

definition resultAt :: "heap \<Rightarrow> nat \<Rightarrow> analysis option" where
  "resultAt h r =
     (case cellAt h (Ref r) of
        Some (ResultObj t c ra) \<Rightarrow>
          map_option (\<lambda>fs. \<lparr>bestFit = t, confidence = c, results = fs\<rparr>) (arrayOf fitOf h ra)
      | _ \<Rightarrow> None)"

definition returned :: "(exn + nat) \<times> heap \<Rightarrow> exn + analysis" where
  "returned out =
     (case out of
        (Inl e, h) \<Rightarrow> Inl e
      | (Inr r, h) \<Rightarrow> (case resultAt h r of None \<Rightarrow> Inl typeError | Some x \<Rightarrow> Inr x))"

section \<open>The measurement engine\<close>

text \<open>
  \<^verbatim>\<open>runAnalysis\<close> calls the function under test and reads the clock. Both are parameters
  of the model, acting on a state \<open>'w\<close> of the outside world: a call of the algorithm on
  an array either returns or throws, leaves the array as it has changed it (the same
  array object is passed again by the loops that reuse it) and changes the world;
  \<^verbatim>\<open>performance.now()\<close> gives a finite number of milliseconds. Every call is taken to
  end. The run keeps a log of what it did: the array of every invocation with what it
  threw, and every reading of the clock.
\<close>

datatype event = Invoke "int list" "exn option" | Clock real

type_synonym 'w algorithm = "int list \<Rightarrow> 'w \<Rightarrow> exn option \<times> int list \<times> 'w"

type_synonym 'w clock = "'w \<Rightarrow> real \<times> 'w"

type_synonym 'w run = "'w \<times> event list"

text \<open>
  \<^verbatim>\<open>Array.from({ length: n }, (_, i) => i)\<close>: the length of an array-like is clamped
  below at zero, and a length of \<open>2^32\<close> or more is refused by the array constructor.
\<close>

definition generateInputArray :: "int \<Rightarrow> exn + int list" where
  "generateInputArray k =
     (if 2 ^ 32 \<le> k then Inl (JsError ''RangeError'' ''Invalid array length'')
      else Inr (map int [0..<nat k]))"

definition invoke :: "'w algorithm \<Rightarrow> int list \<Rightarrow> 'w run \<Rightarrow> (exn option \<times> int list) \<times> 'w run" where
  "invoke alg arr s =
     (case alg arr (fst s) of (r, arr', w') \<Rightarrow> ((r, arr'), (w', snd s @ [Invoke arr r])))"

definition readClock :: "'w clock \<Rightarrow> 'w run \<Rightarrow> real \<times> 'w run" where
  "readClock now s = (case now (fst s) of (t, w') \<Rightarrow> (t, (w', snd s @ [Clock t])))"

text \<open>\<^verbatim>\<open>for (let i = 0; i < k; i++) { algorithm(array); }\<close>; a throw ends the loop.\<close>

fun repeatInvoke :: "'w algorithm \<Rightarrow> nat \<Rightarrow> int list \<Rightarrow> 'w run \<Rightarrow> (exn + int list) \<times> 'w run" where
  "repeatInvoke alg 0 arr s = (Inr arr, s)"
| "repeatInvoke alg (Suc k) arr s =
     (case invoke alg arr s of
        ((Some e, arr'), s') \<Rightarrow> (Inl e, s')
      | ((None, arr'), s') \<Rightarrow> repeatInvoke alg k arr' s')"

text \<open>The warm-up: a hundred calls on the array of size \<^verbatim>\<open>inputSizes[0]\<close>.\<close>

definition warmup :: "'w algorithm \<Rightarrow> int list \<Rightarrow> 'w run \<Rightarrow> (exn + unit) \<times> 'w run" where
  "warmup alg inputSizes s =
     (case inputSizes of
        [] \<Rightarrow> (Inr (), s)
      | warmupSize # sizes \<Rightarrow>
          (case generateInputArray warmupSize of
             Inl e \<Rightarrow> (Inl e, s)
           | Inr warmupArray \<Rightarrow>
               (case repeatInvoke alg 100 warmupArray s of
                  (Inl e, s') \<Rightarrow> (Inl e, s')
                | (Inr arr', s') \<Rightarrow> (Inr (), s'))))"

text \<open>
  The calibration loop
  \<^verbatim>\<open>while ((calEnd - calStart) < 5 && calCount < 1000000)\<close>; it returns \<open>calEnd\<close> and
  \<open>calCount\<close>.
\<close>

function calibrate ::
  "'w algorithm \<Rightarrow> 'w clock \<Rightarrow> int list \<Rightarrow> real \<Rightarrow> real \<Rightarrow> nat \<Rightarrow> 'w run
     \<Rightarrow> (exn + real \<times> nat) \<times> 'w run"
where
  "calibrate alg now arr calStart calEnd calCount s =
     (if calEnd - calStart < 5 \<and> calCount < 1000000 then
        (case invoke alg arr s of
           ((Some e, arr'), s') \<Rightarrow> (Inl e, s')
         | ((None, arr'), s') \<Rightarrow>
             (case readClock now s' of
                (t, s'') \<Rightarrow> calibrate alg now arr' calStart t (Suc calCount) s''))
      else (Inr (calEnd, calCount), s))"
  by pat_completeness auto
termination
  by (relation "measure (\<lambda>(alg, now, arr, calStart, calEnd, calCount, s). 1000000 - calCount)")
    auto

text \<open>
  The batch size: \<^verbatim>\<open>Math.ceil((15 * calCount) / (calDuration || 0.001))\<close> when more than one
  calibration run was needed, else 1.
\<close>

definition batchSizeOf :: "real \<Rightarrow> nat \<Rightarrow> int" where
  "batchSizeOf calDuration calCount =
     (if 1 < calCount
      then \<lceil>(15 * real calCount) / (if calDuration = 0 then 1 / 1000 else calDuration)\<rceil>
      else 1)"

text \<open>
  The timed batches of one size: each on a fresh array, which the \<open>batchSize\<close> calls of
  the batch share; the sample pushed to \<^verbatim>\<open>times\<close> is \<^verbatim>\<open>(end - start) / batchSize\<close>.
\<close>

fun timedRuns ::
  "'w algorithm \<Rightarrow> 'w clock \<Rightarrow> int \<Rightarrow> int \<Rightarrow> nat \<Rightarrow> 'w run \<Rightarrow> (exn + jsnum list) \<times> 'w run"
where
  "timedRuns alg now k batchSize 0 s = (Inr [], s)"
| "timedRuns alg now k batchSize (Suc i) s =
     (case generateInputArray k of
        Inl e \<Rightarrow> (Inl e, s)
      | Inr array \<Rightarrow>
          (case readClock now s of
             (start, s1) \<Rightarrow>
               (case repeatInvoke alg (nat batchSize) array s1 of
                  (Inl e, s2) \<Rightarrow> (Inl e, s2)
                | (Inr arr', s2) \<Rightarrow>
                    (case readClock now s2 of
                       (end, s3) \<Rightarrow>
                         (case timedRuns alg now k batchSize i s3 of
                            (Inl e, s4) \<Rightarrow> (Inl e, s4)
                          | (Inr samples, s4) \<Rightarrow>
                              (Inr (js_div (Fin (end - start)) (Fin (of_int batchSize)) # samples),
                               s4))))))"

text \<open>The body of \<^verbatim>\<open>for (const n of inputSizes)\<close>: one data point, or what was thrown.\<close>

definition measureSize ::
  "'w algorithm \<Rightarrow> 'w clock \<Rightarrow> nat \<Rightarrow> int \<Rightarrow> 'w run \<Rightarrow> (exn + dataPoint) \<times> 'w run"
where
  "measureSize alg now iterations k s =
     (case generateInputArray k of
        Inl e \<Rightarrow> (Inl e, s)
      | Inr calibrationArray \<Rightarrow>
          (case readClock now s of
             (calStart, s1) \<Rightarrow>
               (case calibrate alg now calibrationArray calStart calStart 0 s1 of
                  (Inl e, s2) \<Rightarrow> (Inl e, s2)
                | (Inr (calEnd, calCount), s2) \<Rightarrow>
                    (let batchSize = batchSizeOf (calEnd - calStart) calCount in
                     case timedRuns alg now k batchSize iterations s2 of
                       (Inl e, s3) \<Rightarrow> (Inl e, s3)
                     | (Inr samples, s3) \<Rightarrow>
                         (case ss_mean samples of
                            Inl e \<Rightarrow> (Inl e, s3)
                          | Inr avgTime \<Rightarrow> (Inr \<lparr>dp_n = k, dp_time = avgTime\<rparr>, s3))))))"

fun measureAll ::
  "'w algorithm \<Rightarrow> 'w clock \<Rightarrow> nat \<Rightarrow> int list \<Rightarrow> 'w run \<Rightarrow> (exn + dataPoint list) \<times> 'w run"
where
  "measureAll alg now iterations [] s = (Inr [], s)"
| "measureAll alg now iterations (k # sizes) s =
     (case measureSize alg now iterations k s of
        (Inl e, s') \<Rightarrow> (Inl e, s')
      | (Inr d, s') \<Rightarrow>
          (case measureAll alg now iterations sizes s' of
             (Inl e, s'') \<Rightarrow> (Inl e, s'')
           | (Inr dataPoints, s'') \<Rightarrow> (Inr (d # dataPoints), s'')))"

text \<open>
  \<^verbatim>\<open>runAnalysis(algorithm, inputSizes, iterations)\<close>, started in the world \<open>w\<close> with an
  empty log: the data points or what was thrown, the world afterwards, and the log.
\<close>

definition runAnalysis ::
  "'w algorithm \<Rightarrow> 'w clock \<Rightarrow> int list \<Rightarrow> nat \<Rightarrow> 'w \<Rightarrow> (exn + dataPoint list) \<times> 'w run"
where
  "runAnalysis alg now inputSizes iterations w =
     (case warmup alg inputSizes (w, []) of
        (Inl e, s) \<Rightarrow> (Inl e, s)
      | (Inr u, s) \<Rightarrow> measureAll alg now iterations inputSizes s)"

section \<open>Predicates of the claims\<close>

text \<open>Every error in the returned \<^verbatim>\<open>results\<close> is a finite number.\<close>

definition allRmseFinite :: "analysis \<Rightarrow> bool" where
  "allRmseFinite r = list_all (\<lambda>p. isFinite (snd p)) (results r)"




text \<open>The calls of the algorithm in a log.\<close>

definition invocations :: "event list \<Rightarrow> nat" where
  "invocations evs =
     length (filter (\<lambda>ev. case ev of Invoke arr r \<Rightarrow> True | Clock t \<Rightarrow> False) evs)"

text \<open>An algorithm none of whose calls throws.\<close>

definition neverThrows :: "'w algorithm \<Rightarrow> bool" where
  "neverThrows alg = (\<forall>arr w. fst (alg arr w) = None)"

section \<open>Algorithms and clocks of the examples\<close>

text \<open>
  An algorithm that does nothing; one that throws a \<^verbatim>\<open>TypeError\<close> on its call number \<open>k\<close>
  (the world counts the calls and the readings of the clock); a clock that advances by
  five milliseconds with every reading; a clock that stands still.
\<close>

definition quietAlgorithm :: "'w algorithm" where
  "quietAlgorithm arr w = (None, arr, w)"

definition throwingAlgorithm :: "nat \<Rightarrow> (nat \<times> nat) algorithm" where
  "throwingAlgorithm k arr w =
     (if fst w = k then Some (JsError ''TypeError'' ''boom'') else None, arr, (Suc (fst w), snd w))"

definition steppingClock :: "(nat \<times> nat) clock" where
  "steppingClock w = (5 * real (snd w), (fst w, Suc (snd w)))"

definition frozenClock :: "'w clock" where
  "frozenClock w = (0, w)"

section \<open>Auxiliary notions of the proofs\<close>

definition realOf :: "jsnum \<Rightarrow> real" where
  "realOf x = (case x of Fin a \<Rightarrow> a | _ \<Rightarrow> 0)"

text \<open>A running sum of squares that has left the finite numbers.\<close>

definition overflowed :: "jsnum \<Rightarrow> bool" where
  "overflowed s = (s = PInf \<or> s = NaN)"


text \<open>
  An invocation that threw, and a piece of log that agrees with a result: nothing in it
  threw, or the result is the error of its last event and nothing threw before.
\<close>

definition threw :: "event \<Rightarrow> bool" where
  "threw ev = (case ev of Invoke arr (Some e) \<Rightarrow> True | _ \<Rightarrow> False)"

definition accounted :: "exn + 'a \<Rightarrow> event list \<Rightarrow> bool" where
  "accounted res new =
     (case res of
        Inr v \<Rightarrow> \<not> list_ex threw new
      | Inl e \<Rightarrow> \<not> list_ex threw new
                 \<or> (\<exists>pre arr. new = pre @ [Invoke arr (Some e)] \<and> \<not> list_ex threw pre))"

text \<open>
  A step keeps the first \<open>k\<close> cells of the store: it leaves them as they are whatever
  it returns, and its value satisfies \<open>Q\<close>.
\<close>

definition keeps :: "nat \<Rightarrow> 'a heapOp \<Rightarrow> ('a \<Rightarrow> bool) \<Rightarrow> bool" where
  "keeps k f Q =
     (\<forall>h res h'. k \<le> length h \<longrightarrow> f h = (res, h') \<longrightarrow>
        k \<le> length h' \<and> take k h' = take k h \<and> (\<forall>x. res = Inr x \<longrightarrow> Q x))"

text \<open>
  A decoder of references looks at the cell behind the reference only, and an array is
  not an object of any kind.
\<close>

definition decodes :: "(heap \<Rightarrow> val \<Rightarrow> 'a option) \<Rightarrow> (cell \<Rightarrow> 'a option) \<Rightarrow> bool" where
  "decodes decode dec =
     ((\<forall>h v. decode h v = Option.bind (cellAt h v) dec) \<and> (\<forall>vs. dec (Arr vs) = None))"

section \<open>Arithmetic of the special values\<close>

lemma js_add_NaN [simp]: "js_add x NaN = NaN" "js_add NaN x = NaN"
  by (cases x; simp)+

lemma js_mul_NaN [simp]: "js_mul x NaN = NaN" "js_mul NaN x = NaN"
  by (cases x; simp)+

lemma js_div_NaN [simp]: "js_div x NaN = NaN" "js_div NaN x = NaN"
  by (cases x; simp)+

lemma js_sub_NaN [simp]: "js_sub x NaN = NaN" "js_sub NaN x = NaN"
  by (simp_all add: js_sub_def)

lemma js_sub_Fin [simp]: "js_sub (Fin a) (Fin b) = Fin (a - b)"
  by (simp add: js_sub_def)

lemma js_pow2_Fin [simp]: "js_pow2 (Fin a) = Fin (a * a)"
  by (simp add: js_pow2_def)

lemma js_pow2_NaN [simp]: "js_pow2 NaN = NaN"
  by (simp add: js_pow2_def)

lemma js_lt_NaN [simp]: "\<not> js_lt x NaN" "\<not> js_lt NaN x"
  by (cases x; simp)+

lemma isFinite_simps [simp]: "isFinite (Fin a)" "\<not> isFinite PInf" "\<not> isFinite NInf" "\<not> isFinite NaN"
  by (simp_all add: isFinite_def)

lemma foldl_js_add_NaN: "foldl js_add NaN xs = NaN"
  by (induction xs) simp_all

lemma foldl_js_add_Fin: "foldl js_add (Fin a) (map Fin xs) = Fin (a + sum_list xs)"
  by (induction xs arbitrary: a) (simp_all add: add.assoc)

lemma ss_sum_Fin: "ss_sum (map Fin xs) = Fin (sum_list xs)"
  by (simp add: ss_sum_def foldl_js_add_Fin)

lemma sumSquaredErrors_NaN [simp]: "sumSquaredErrors NaN actual predicted = NaN"
  by (induction NaN actual predicted rule: sumSquaredErrors.induct) simp_all

text \<open>All predictions NaN\<close>
lemma sumSquaredErrors_all_NaN:
  "actual \<noteq> [] \<Longrightarrow> sumSquaredErrors s actual (map (\<lambda>x. NaN) xs) = NaN"
  by (cases actual; cases xs) simp_all

lemma sumSquaredErrors_some_NaN:
  "length predicted = length actual \<Longrightarrow> NaN \<in> set predicted \<Longrightarrow> sumSquaredErrors s actual predicted = NaN"
proof (induction s actual predicted rule: sumSquaredErrors.induct)
  case (3 s v actual p predicted)
  then show ?case by (cases "p = NaN") auto
qed simp_all

lemma calculateRMSE_some_NaN:
  "length predicted = length actual \<Longrightarrow> NaN \<in> set predicted \<Longrightarrow> calculateRMSE actual predicted = NaN"
  by (simp add: calculateRMSE_def sumSquaredErrors_some_NaN)

section \<open>A regression through a non-finite abscissa\<close>

lemma regressionSums_folds:
  "regressionSums (a, b, c, d) ps =
     (foldl js_add a (map fst ps), foldl js_add b (map snd ps),
      foldl js_add c (map (\<lambda>p. js_mul (fst p) (fst p)) ps),
      foldl js_add d (map (\<lambda>p. js_mul (fst p) (snd p)) ps))"
  by (induction ps arbitrary: a b c d) auto

lemma js_add_not_finite: "\<not> isFinite a \<or> \<not> isFinite b \<Longrightarrow> \<not> isFinite (js_add a b)"
  by (cases a; cases b) simp_all

lemma foldl_js_add_not_finite:
  "\<not> isFinite a \<or> (\<exists>x\<in>set xs. \<not> isFinite x) \<Longrightarrow> \<not> isFinite (foldl js_add a xs)"
proof (induction xs arbitrary: a)
  case Nil
  then show ?case by simp
next
  case (Cons x xs)
  show ?case
  proof (cases "isFinite a \<and> isFinite x")
    case True
    with Cons.prems have "\<exists>y\<in>set xs. \<not> isFinite y" by auto
    then show ?thesis using Cons.IH by simp
  next
    case False
    then have "\<not> isFinite (js_add a x)" using js_add_not_finite by blast
    then show ?thesis using Cons.IH by simp
  qed
qed

text \<open>A sum of squares is never \<open>-\<infinity>\<close>, and is \<open>\<infinity>\<close> or \<open>NaN\<close> once one term is.\<close>

lemma js_mul_self_cases: "js_mul x x \<noteq> NInf"
  by (cases x) (simp_all add: inf_times_def)

lemma js_mul_self_overflowed: "\<not> isFinite x \<Longrightarrow> overflowed (js_mul x x)"
  by (cases x) (simp_all add: overflowed_def)

lemma js_add_no_NInf: "a \<noteq> NInf \<Longrightarrow> b \<noteq> NInf \<Longrightarrow> js_add a b \<noteq> NInf"
  by (cases a; cases b) simp_all

lemma js_add_overflowed:
  "a \<noteq> NInf \<Longrightarrow> b \<noteq> NInf \<Longrightarrow> overflowed a \<or> overflowed b \<Longrightarrow> overflowed (js_add a b)"
  by (cases a; cases b) (simp_all add: overflowed_def)

lemma foldl_squares_overflowed:
  "a \<noteq> NInf \<Longrightarrow> overflowed a \<or> (\<exists>x\<in>set xs. \<not> isFinite x) \<Longrightarrow>
   overflowed (foldl js_add a (map (\<lambda>x. js_mul x x) xs))"
proof (induction xs arbitrary: a)
  case Nil
  then show ?case by simp
next
  case (Cons x xs)
  have n: "js_add a (js_mul x x) \<noteq> NInf"
    using Cons.prems(1) js_mul_self_cases js_add_no_NInf by blast
  show ?case
  proof (cases "overflowed a \<or> \<not> isFinite x")
    case True
    then have "overflowed (js_add a (js_mul x x))"
      using js_add_overflowed [OF Cons.prems(1) js_mul_self_cases] js_mul_self_overflowed by blast
    then show ?thesis using Cons.IH [OF n] by simp
  next
    case False
    with Cons.prems(2) have "\<exists>y\<in>set xs. \<not> isFinite y" by auto
    then show ?thesis using Cons.IH [OF n] by simp
  qed
qed

lemma denominator_NaN:
  "0 < k \<Longrightarrow> overflowed sxx \<Longrightarrow> \<not> isFinite sx \<Longrightarrow>
   js_sub (js_mul (Fin k) sxx) (js_mul sx sx) = NaN"
  by (cases sxx; cases sx) (simp_all add: overflowed_def inf_times_def js_sub_def)

lemma linearRegression_single [simp]: "linearRegression [(x, y)] = (Fin 0, y)"
  by (simp add: linearRegression_def)

lemma linearRegression_many:
  "length data \<noteq> 1 \<Longrightarrow> linearRegression data =
     (let dataLength = Fin (real (length data));
          (sumX, sumY, sumXX, sumXY) = regressionSums (Fin 0, Fin 0, Fin 0, Fin 0) data;
          m = js_div (js_sub (js_mul dataLength sumXY) (js_mul sumX sumY))
                (js_sub (js_mul dataLength sumXX) (js_mul sumX sumX));
          b = js_sub (js_div sumY dataLength) (js_div (js_mul m sumX) dataLength)
      in (m, b))"
  by (cases data rule: list.exhaust; simp add: linearRegression_def split: list.splits prod.splits)

lemma linearRegression_not_finite:
  assumes "2 \<le> length data" and "\<exists>p\<in>set data. \<not> isFinite (fst p)"
  shows "linearRegression data = (NaN, NaN)"
proof -
  obtain sx sy sxx sxy where s: "regressionSums (Fin 0, Fin 0, Fin 0, Fin 0) data = (sx, sy, sxx, sxy)"
    by (metis prod_cases4)
  have sx: "\<not> isFinite sx"
    using s assms(2) foldl_js_add_not_finite [of "Fin 0" "map fst data"]
    by (auto simp: regressionSums_folds)
  have "overflowed (foldl js_add (Fin 0) (map (\<lambda>x. js_mul x x) (map fst data)))"
    using assms(2) by (intro foldl_squares_overflowed) auto
  then have sxx: "overflowed sxx"
    using s by (simp add: regressionSums_folds comp_def)
  have "0 < real (length data)" using assms(1) by (cases data) simp_all
  then have "js_sub (js_mul (Fin (real (length data))) sxx) (js_mul sx sx) = NaN"
    using sxx sx by (rule denominator_NaN)
  then show ?thesis
    using assms(1) s by (simp add: linearRegression_many Let_def)
qed

lemma getRegressionRMSE_not_finite:
  assumes "\<exists>d\<in>set dataPoints. \<not> isFinite (transformFn (dp_n d))"
  shows "getRegressionRMSE transformFn dataPoints = NaN"
proof (cases "length dataPoints = 1")
  case True
  then obtain d where d: "dataPoints = [d]" by (cases dataPoints) auto
  with assms have "\<not> isFinite (transformFn (dp_n d))" by simp
  then have "js_mul (Fin 0) (transformFn (dp_n d)) = NaN"
    by (cases "transformFn (dp_n d)") (simp_all add: inf_times_def)
  then show ?thesis
    by (simp add: d getRegressionRMSE_def calculateRMSE_def linearRegressionLine_def)
next
  case False
  from assms have ne: "dataPoints \<noteq> []" by auto
  with False have len: "2 \<le> length dataPoints"
    by (cases dataPoints) (auto simp: Suc_le_eq)
  let ?data = "map (\<lambda>d. (transformFn (dp_n d), dp_time d)) dataPoints"
  have "linearRegression ?data = (NaN, NaN)"
    using len assms by (intro linearRegression_not_finite) auto
  then have "getRegressionRMSE transformFn dataPoints =
      calculateRMSE (map dp_time dataPoints) (map (\<lambda>d. NaN) dataPoints)"
    by (simp add: getRegressionRMSE_def linearRegressionLine_def)
  also have "\<dots> = NaN"
    using ne by (intro calculateRMSE_some_NaN) (auto simp: image_iff neq_Nil_conv)
  finally show ?thesis .
qed

lemma tr_log_zero: "\<not> isFinite (tr_log 0)"
  by (simp add: tr_log_def)

lemma tr_nlogn_zero: "\<not> isFinite (tr_nlogn 0)"
  by (simp add: tr_nlogn_def inf_times_def)

section \<open>Sorting, and the classifier on a non-empty input\<close>

lemma set_sortInsert [simp]: "set (sortInsert cmp x ys) = insert x (set ys)"
  by (induction ys) auto

lemma set_arraySort [simp]: "set (arraySort cmp xs) = set xs"
  by (induction xs) (simp_all add: arraySort_def)

lemma length_sortInsert [simp]: "length (sortInsert cmp x ys) = Suc (length ys)"
  by (induction ys) auto

lemma length_arraySort [simp]: "length (arraySort cmp xs) = length xs"
  by (induction xs) (simp_all add: arraySort_def)

lemma arraySort_Nil_iff [simp]: "arraySort cmp xs = [] \<longleftrightarrow> xs = []"
  using length_arraySort [of cmp xs] by (metis length_0_conv)

text \<open>Nothing moves when no element compares above another.\<close>

lemma sortInsert_front:
  "\<forall>y\<in>set ys. \<not> js_lt (Fin 0) (cmp x y) \<Longrightarrow> sortInsert cmp x ys = x # ys"
  by (cases ys) simp_all

lemma arraySort_unchanged:
  "\<forall>x\<in>set xs. \<forall>y\<in>set xs. \<not> js_lt (Fin 0) (cmp x y) \<Longrightarrow> arraySort cmp xs = xs"
proof (induction xs)
  case Nil
  then show ?case by (simp add: arraySort_def)
next
  case (Cons x xs)
  then have "arraySort cmp xs = xs" by simp
  moreover have "sortInsert cmp x xs = x # xs"
    using Cons.prems by (intro sortInsert_front) simp
  ultimately show ?case by (simp add: arraySort_def)
qed

lemma str_includes_types [simp]:
  "str_includes ''O(1) - Constant'' ''O(1)''"
  "\<not> str_includes ''O(log n) - Logarithmic'' ''O(1)''"
  "\<not> str_includes ''O(n) - Linear'' ''O(1)''"
  "\<not> str_includes ''O(n log n) - Linear-ithmic'' ''O(1)''"
  "\<not> str_includes ''O(n^2) - Quadratic'' ''O(1)''"
  "\<not> str_includes ''O(1) - Constant'' ''O(log n)''"
  "str_includes ''O(log n) - Logarithmic'' ''O(log n)''"
  "\<not> str_includes ''O(n) - Linear'' ''O(log n)''"
  "\<not> str_includes ''O(n log n) - Linear-ithmic'' ''O(log n)''"
  "\<not> str_includes ''O(n^2) - Quadratic'' ''O(log n)''"
  by simp_all

lemma ss_mean_Cons: "ss_mean (v # vs) = Inr (js_div (ss_sum (v # vs)) (Fin (real (Suc (length vs)))))"
  by (simp add: ss_mean_def)

lemma ss_variance_nonempty: "x \<noteq> [] \<Longrightarrow> \<exists>v. ss_variance x = Inr v"
  by (simp add: ss_variance_def ss_mean_def)

lemma ss_max_nonempty: "x \<noteq> [] \<Longrightarrow> \<exists>v. ss_max x = Inr v"
  by (cases x) (simp_all add: ss_max_def)

lemma find_constant:
  assumes "\<exists>m\<in>set models. str_includes (mtype m) ''O(1)''"
  shows "\<exists>m. find (\<lambda>m. str_includes (mtype m) ''O(1)'') models = Some m \<and> m \<in> set models
            \<and> str_includes (mtype m) ''O(1)''"
proof (cases "find (\<lambda>m. str_includes (mtype m) ''O(1)'') models")
  case None
  then show ?thesis using assms by (auto simp: find_None_iff)
next
  case (Some m)
  then show ?thesis by (auto simp: find_Some_iff)
qed

lemma analyse_returns:
  assumes "timeValues \<noteq> []" and "\<exists>m\<in>set models. str_includes (mtype m) ''O(1)''"
  shows "\<exists>r. analyse models meanTime timeValues = Inr r \<and>
             results r = arraySort (\<lambda>a b. js_sub (snd a) (snd b)) (map (\<lambda>m. (mtype m, rmse m)) models)"
proof -
  from assms(2) obtain m0 rest where ms: "models = m0 # rest" by (cases models) auto
  obtain v where v: "ss_variance timeValues = Inr v" using ss_variance_nonempty [OF assms(1)] by blast
  obtain mx where mx: "ss_max timeValues = Inr mx" using ss_max_nonempty [OF assms(1)] by blast
  obtain c where c: "find (\<lambda>m. str_includes (mtype m) ''O(1)'') models = Some c"
    using find_constant [OF assms(2)] by blast
  show ?thesis
    unfolding analyse_def chooseModel_def using c by (simp add: ms v mx Let_def del: find.simps)
qed

lemma buildModels_has_constant:
  "\<exists>m\<in>set (buildModels meanTime dataPoints). str_includes (mtype m) ''O(1)''"
  by (simp add: buildModels_def Let_def)

lemma determineComplexity_returns:
  assumes "dataPoints \<noteq> []"
  shows "\<exists>r meanTime. ss_mean (map dp_time dataPoints) = Inr meanTime \<and>
           determineComplexity dataPoints = Inr r \<and>
           set (results r) = (\<lambda>m. (mtype m, rmse m)) ` set (buildModels meanTime dataPoints)"
proof -
  obtain \<mu> where \<mu>: "ss_mean (map dp_time dataPoints) = Inr \<mu>"
    using assms by (simp add: ss_mean_def)
  let ?ms = "arraySort byRmse (buildModels \<mu> dataPoints)"
  have "\<exists>m\<in>set ?ms. str_includes (mtype m) ''O(1)''"
    using buildModels_has_constant by simp
  then obtain r where r: "analyse ?ms \<mu> (map dp_time dataPoints) = Inr r"
    "results r = arraySort (\<lambda>a b. js_sub (snd a) (snd b)) (map (\<lambda>m. (mtype m, rmse m)) ?ms)"
    using analyse_returns [of "map dp_time dataPoints" ?ms \<mu>] assms by auto
  have "determineComplexity dataPoints = Inr r"
    by (simp add: determineComplexity_def \<mu> r(1))
  moreover have "set (results r) = (\<lambda>m. (mtype m, rmse m)) ` set (buildModels \<mu> dataPoints)"
    by (simp add: r(2))
  ultimately show ?thesis using \<mu> by blast
qed

section \<open>Flat series\<close>

lemma Fin_realOf: "isFinite x \<Longrightarrow> Fin (realOf x) = x"
  by (cases x) (simp_all add: realOf_def)

lemma sumSquaredErrors_exact:
  "sumSquaredErrors (Fin 0) (map (\<lambda>d. Fin t) ds) (map (\<lambda>d. Fin t) ds) = Fin 0"
  by (induction ds) simp_all

lemma calculateRMSE_exact:
  "ds \<noteq> [] \<Longrightarrow> calculateRMSE (map (\<lambda>d. Fin t) ds) (map (\<lambda>d. Fin t) ds) = Fin 0"
  by (simp add: calculateRMSE_def sumSquaredErrors_exact)

lemma flat_times: "\<forall>d\<in>set ds. dp_time d = Fin t \<Longrightarrow> map dp_time ds = map (\<lambda>d. Fin t) ds"
  by simp

lemma ss_sum_flat: "ss_sum (map (\<lambda>d. Fin t) ds) = Fin (real (length ds) * t)"
proof -
  have "map (\<lambda>d. Fin t) ds = map Fin (map (\<lambda>d. t) ds)" by simp
  then have "ss_sum (map (\<lambda>d. Fin t) ds) = Fin (sum_list (map (\<lambda>d. t) ds))"
    by (simp only: ss_sum_Fin)
  then show ?thesis by (simp add: sum_list_triv)
qed

lemma ss_mean_flat: "ds \<noteq> [] \<Longrightarrow> ss_mean (map (\<lambda>d. Fin t) ds) = Inr (Fin t)"
  by (simp add: ss_mean_def ss_sum_flat)

text \<open>The regression of a flat series on finite abscissas.\<close>

lemma linearRegression_flat:
  assumes "2 \<le> length ds"
  shows "linearRegression (map (\<lambda>d. (Fin (g d), Fin t)) ds) = (Fin 0, Fin t)
       \<or> linearRegression (map (\<lambda>d. (Fin (g d), Fin t)) ds) = (NaN, NaN)"
proof -
  let ?data = "map (\<lambda>d. (Fin (g d), Fin t)) ds"
  let ?k = "real (length ds)"
  let ?sx = "sum_list (map g ds)"
  let ?sxx = "sum_list (map (\<lambda>d. g d * g d) ds)"
  have k: "?k \<noteq> 0" using assms by auto
  have 1: "foldl js_add (Fin 0) (map fst ?data) = Fin ?sx"
    using foldl_js_add_Fin [of 0 "map g ds"] by (simp add: comp_def)
  have 2: "foldl js_add (Fin 0) (map snd ?data) = Fin (?k * t)"
    using ss_sum_flat [of t ds] by (simp add: comp_def ss_sum_def)
  have 3: "foldl js_add (Fin 0) (map (\<lambda>p. js_mul (fst p) (fst p)) ?data) = Fin ?sxx"
    using foldl_js_add_Fin [of 0 "map (\<lambda>d. g d * g d) ds"] by (simp add: comp_def)
  have "foldl js_add (Fin 0) (map (\<lambda>p. js_mul (fst p) (snd p)) ?data)
          = Fin (sum_list (map (\<lambda>d. g d * t) ds))"
    using foldl_js_add_Fin [of 0 "map (\<lambda>d. g d * t) ds"] by (simp add: comp_def)
  then have 4: "foldl js_add (Fin 0) (map (\<lambda>p. js_mul (fst p) (snd p)) ?data) = Fin (?sx * t)"
    by (simp add: sum_list_mult_const)
  have s: "regressionSums (Fin 0, Fin 0, Fin 0, Fin 0) ?data
             = (Fin ?sx, Fin (?k * t), Fin ?sxx, Fin (?sx * t))"
    by (simp only: regressionSums_folds 1 2 3 4)
  have len: "length ?data \<noteq> 1" using assms by simp
  show ?thesis
    by (simp add: linearRegression_many [OF len] s Let_def k)
qed

lemma getRegressionRMSE_flat_finite:
  assumes flat: "\<forall>d\<in>set ds. dp_time d = Fin t" and ne: "ds \<noteq> []"
    and fin: "\<forall>d\<in>set ds. isFinite (transformFn (dp_n d))"
  shows "getRegressionRMSE transformFn ds = Fin 0 \<or> getRegressionRMSE transformFn ds = NaN"
proof -
  let ?g = "\<lambda>d. realOf (transformFn (dp_n d))"
  have x: "map (\<lambda>d. (transformFn (dp_n d), dp_time d)) ds = map (\<lambda>d. (Fin (?g d), Fin t)) ds"
    using flat fin by (simp add: Fin_realOf)
  have tv: "map dp_time ds = map (\<lambda>d. Fin t) ds" using flat by simp
  have "\<And>x. isFinite x \<Longrightarrow> js_add (Fin t) (js_mul (Fin 0) x) = Fin t"
    by (case_tac x) simp_all
  then have px: "map (\<lambda>d. js_add (Fin t) (js_mul (Fin 0) (transformFn (dp_n d)))) ds
              = map (\<lambda>d. Fin t) ds"
    using fin by simp
  have cases: "linearRegression (map (\<lambda>d. (Fin (?g d), Fin t)) ds) = (Fin 0, Fin t)
       \<or> linearRegression (map (\<lambda>d. (Fin (?g d), Fin t)) ds) = (NaN, NaN)"
  proof (cases "length ds = 1")
    case True
    then obtain d where "ds = [d]" by (cases ds) auto
    then show ?thesis by simp
  next
    case False
    with ne have "2 \<le> length ds" by (cases ds) (auto simp: Suc_le_eq)
    then show ?thesis by (rule linearRegression_flat)
  qed
  then show ?thesis
  proof
    assume "linearRegression (map (\<lambda>d. (Fin (?g d), Fin t)) ds) = (Fin 0, Fin t)"
    then have "getRegressionRMSE transformFn ds
        = calculateRMSE (map (\<lambda>d. Fin t) ds) (map (\<lambda>d. Fin t) ds)"
      by (simp add: getRegressionRMSE_def x tv linearRegressionLine_def px)
    then show ?thesis using calculateRMSE_exact [OF ne] by simp
  next
    assume "linearRegression (map (\<lambda>d. (Fin (?g d), Fin t)) ds) = (NaN, NaN)"
    then have "getRegressionRMSE transformFn ds
        = calculateRMSE (map (\<lambda>d. Fin t) ds) (map (\<lambda>d. NaN) ds)"
      by (simp add: getRegressionRMSE_def x tv linearRegressionLine_def)
    also have "\<dots> = NaN"
      using ne by (intro calculateRMSE_some_NaN) (auto simp: image_iff neq_Nil_conv)
    finally show ?thesis by simp
  qed
qed

lemma getRegressionRMSE_flat:
  assumes "\<forall>d\<in>set ds. dp_time d = Fin t" and "ds \<noteq> []"
  shows "getRegressionRMSE transformFn ds = Fin 0 \<or> getRegressionRMSE transformFn ds = NaN"
proof (cases "\<forall>d\<in>set ds. isFinite (transformFn (dp_n d))")
  case True
  with assms show ?thesis by (rule getRegressionRMSE_flat_finite)
next
  case False
  then show ?thesis using getRegressionRMSE_not_finite by blast
qed

lemma occamStep_keep:
  "\<not> complexity candidate < complexity bestModel \<Longrightarrow>
   \<not> str_includes (mtype bestModel) ''O(log n)'' \<Longrightarrow>
   occamStep models meanTime candidate bestModel = bestModel"
  by (simp add: occamStep_def)

lemma fold_occamStep_keep:
  "\<forall>m\<in>set rest. \<not> complexity m < complexity bestModel \<Longrightarrow>
   \<not> str_includes (mtype bestModel) ''O(log n)'' \<Longrightarrow>
   fold (occamStep models meanTime) rest bestModel = bestModel"
  by (induction rest) (simp_all add: occamStep_keep)

lemma js_round_100 [simp]: "js_round (Fin 100) = Fin 100"
proof -
  have "\<lfloor>(100::real) + 1 / 2\<rfloor> = 100" by linarith
  then show ?thesis by simp
qed

lemma confidenceOf_exact: "rmse bestModel = Fin 0 \<Longrightarrow> confidenceOf models meanTime bestModel = Fin 100"
  by (simp add: confidenceOf_def noiseFloor_def)

lemma analyse_constant_first:
  assumes tv: "timeValues \<noteq> []"
    and c: "mtype c = ''O(1) - Constant''" "rmse c = Fin 0"
    and rest: "\<forall>m\<in>set rest. \<not> complexity m < complexity c"
  shows "\<exists>r. analyse (c # rest) meanTime timeValues = Inr r \<and> bestFit r = ''O(1) - Constant''
            \<and> confidence r = Fin 100"
proof -
  obtain v where v: "ss_variance timeValues = Inr v" using ss_variance_nonempty [OF tv] by blast
  obtain mx where mx: "ss_max timeValues = Inr mx" using ss_max_nonempty [OF tv] by blast
  have loop: "fold (occamStep (c # rest) meanTime) rest c = c"
    using rest c(1) by (intro fold_occamStep_keep) simp_all
  have conf: "confidenceOf (c # rest) meanTime c = Fin 100"
    using c(2) by (rule confidenceOf_exact)
  show ?thesis
    by (simp add: analyse_def chooseModel_def v mx loop c(1) conf Let_def)
qed

lemma flat_series_result:
  assumes flat: "\<forall>d\<in>set ds. dp_time d = Fin t" and ne: "ds \<noteq> []"
  shows "\<exists>r. determineComplexity ds = Inr r \<and> bestFit r = ''O(1) - Constant''
            \<and> confidence r = Fin 100 \<and> (''O(1) - Constant'', Fin 0) \<in> set (results r)"
proof -
  have tv: "map dp_time ds = map (\<lambda>d. Fin t) ds" using flat by simp
  have \<mu>: "ss_mean (map dp_time ds) = Inr (Fin t)"
    by (simp only: tv ss_mean_flat [OF ne])
  let ?ms = "buildModels (Fin t) ds"
  have crmse: "calculateRMSE (map dp_time ds) (map (\<lambda>k. Fin t) (map dp_n ds)) = Fin 0"
    using calculateRMSE_exact [OF ne, of t] by (simp add: tv comp_def)
  define rest where "rest =
     [\<lparr>mtype = ''O(log n) - Logarithmic'', rmse = getRegressionRMSE tr_log ds, complexity = 2\<rparr>,
      \<lparr>mtype = ''O(n) - Linear'', rmse = getRegressionRMSE tr_linear ds, complexity = 3\<rparr>,
      \<lparr>mtype = ''O(n log n) - Linear-ithmic'', rmse = getRegressionRMSE tr_nlogn ds, complexity = 4\<rparr>,
      \<lparr>mtype = ''O(n^2) - Quadratic'', rmse = getRegressionRMSE tr_quadratic ds, complexity = 5\<rparr>]"
  have ms: "?ms = \<lparr>mtype = ''O(1) - Constant'', rmse = Fin 0, complexity = 1\<rparr> # rest"
    by (simp only: buildModels_def Let_def crmse rest_def)
  have rest: "\<forall>m\<in>set rest. \<not> complexity m < 1"
    by (simp add: rest_def)
  have zn: "\<forall>m\<in>set ?ms. rmse m = Fin 0 \<or> rmse m = NaN"
    using getRegressionRMSE_flat [OF flat ne] by (simp add: ms rest_def)
  have "\<forall>a\<in>set ?ms. \<forall>b\<in>set ?ms. \<not> js_lt (Fin 0) (byRmse a b)"
  proof (intro ballI)
    fix a b assume "a \<in> set ?ms" "b \<in> set ?ms"
    then have "(rmse a = Fin 0 \<or> rmse a = NaN) \<and> (rmse b = Fin 0 \<or> rmse b = NaN)"
      using zn by blast
    then show "\<not> js_lt (Fin 0) (byRmse a b)" by (auto simp: byRmse_def)
  qed
  then have sorted: "arraySort byRmse ?ms = ?ms" by (rule arraySort_unchanged)
  have tvne: "map dp_time ds \<noteq> []" using ne by simp
  obtain r where r: "analyse ?ms (Fin t) (map dp_time ds) = Inr r"
      "bestFit r = ''O(1) - Constant''" "confidence r = Fin 100"
    using analyse_constant_first [OF tvne, of "\<lparr>mtype = ''O(1) - Constant'', rmse = Fin 0, complexity = 1\<rparr>" rest "Fin t"]
      ms rest by auto
  have dc: "determineComplexity ds = Inr r"
    by (simp add: determineComplexity_def \<mu> sorted r(1))
  obtain r' \<mu>' where r': "ss_mean (map dp_time ds) = Inr \<mu>'" "determineComplexity ds = Inr r'"
     "set (results r') = (\<lambda>m. (mtype m, rmse m)) ` set (buildModels \<mu>' ds)"
    using determineComplexity_returns [OF ne] by blast
  then have "r' = r" "\<mu>' = Fin t" using dc \<mu> by simp_all
  then have "(''O(1) - Constant'', Fin 0) \<in> set (results r)"
    using r'(3) ms by (simp add: image_iff)
  then show ?thesis using dc r(2,3) by blast
qed

section \<open>A data point of size zero\<close>

lemma n_zero_results:
  assumes "\<exists>d\<in>set dataPoints. dp_n d = 0"
  shows "\<exists>r. determineComplexity dataPoints = Inr r
           \<and> (''O(log n) - Logarithmic'', NaN) \<in> set (results r)
           \<and> (''O(n log n) - Linear-ithmic'', NaN) \<in> set (results r)"
proof -
  from assms have ne: "dataPoints \<noteq> []" by auto
  obtain r \<mu> where r: "determineComplexity dataPoints = Inr r"
     "set (results r) = (\<lambda>m. (mtype m, rmse m)) ` set (buildModels \<mu> dataPoints)"
    using determineComplexity_returns [OF ne] by blast
  have "\<exists>d\<in>set dataPoints. \<not> isFinite (tr_log (dp_n d))"
    using assms tr_log_zero by force
  then have lg: "getRegressionRMSE tr_log dataPoints = NaN"
    by (rule getRegressionRMSE_not_finite)
  have "\<exists>d\<in>set dataPoints. \<not> isFinite (tr_nlogn (dp_n d))"
    using assms tr_nlogn_zero by force
  then have nl: "getRegressionRMSE tr_nlogn dataPoints = NaN"
    by (rule getRegressionRMSE_not_finite)
  have "(''O(log n) - Logarithmic'', NaN) \<in> set (results r)"
    by (simp add: r(2) buildModels_def Let_def lg image_iff)
  moreover have "(''O(n log n) - Linear-ithmic'', NaN) \<in> set (results r)"
    by (simp add: r(2) buildModels_def Let_def nl image_iff)
  ultimately show ?thesis using r(1) by blast
qed

section \<open>The rank of the chosen model\<close>







section \<open>Evaluating the classifier on three points\<close>

lemma ln4: "ln (4::real) = 2 * ln 2"
proof -
  have "ln (4::real) = ln (2 ^ 2)" by simp
  also have "\<dots> = 2 * ln 2" by (simp only: ln_realpow)
  finally show ?thesis .
qed

lemmas regression_defs = getRegressionRMSE_def linearRegression_def Let_def
  linearRegressionLine_def calculateRMSE_def ln4
  tr_linear_def tr_quadratic_def tr_log_def tr_nlogn_def

lemma sqrt_scaled_less: "0 \<le> c \<Longrightarrow> (sqrt x < c * sqrt y) = (x < c\<^sup>2 * y)"
proof -
  assume c: "0 \<le> c"
  have "c * sqrt y = sqrt (c\<^sup>2 * y)" using c by (simp add: real_sqrt_mult)
  then show ?thesis by simp
qed

lemma relative_error_sqrt:
  assumes "0 < y"
  shows "((sqrt x - sqrt y) / sqrt y < 15 / 100) = (x < 529 / 400 * y)"
proof -
  have s: "0 < sqrt y" using assms by simp
  then have "((sqrt x - sqrt y) / sqrt y < 15 / 100) = (sqrt x < (23 / 20) * sqrt y)"
    by (simp add: field_simps)
  moreover have "(sqrt x < (23 / 20) * sqrt y) = (x < (23 / 20)\<^sup>2 * y)"
    by (rule sqrt_scaled_less) simp
  moreover have "((23 :: real) / 20)\<^sup>2 = 529 / 400" by (simp add: power2_eq_square)
  ultimately show ?thesis by simp
qed

lemma within_tolerance_sqrt:
  assumes "0 < y"
  shows "js_lt (js_div (Fin (sqrt x - sqrt y)) (js_or (Fin (sqrt y)) d)) tolerance
           = (x < 529 / 400 * y)"
proof -
  have s: "0 < sqrt y" using assms by simp
  then have "js_or (Fin (sqrt y)) d = Fin (sqrt y)" by (simp add: js_or_def)
  then show ?thesis
    using s relative_error_sqrt [OF assms, of x] by (simp add: tolerance_def)
qed



section \<open>The log of a run\<close>

lemma threw_simps [simp]:
  "threw (Invoke arr (Some e))" "\<not> threw (Invoke arr None)" "\<not> threw (Clock t)"
  by (simp_all add: threw_def)

lemma accounted_Inr [simp]: "accounted (Inr v) new = (\<not> list_ex threw new)"
  by (simp add: accounted_def)

lemma accounted_Inl_retag: "accounted (Inl e :: exn + 'a) new \<Longrightarrow> accounted (Inl e :: exn + 'b) new"
  by (simp add: accounted_def)

lemma accounted_append:
  assumes a: "\<not> list_ex threw a" and b: "accounted res b"
  shows "accounted res (a @ b)"
proof (cases res)
  case (Inl e)
  from b Inl consider "\<not> list_ex threw b"
    | pre arr where "b = pre @ [Invoke arr (Some e)]" "\<not> list_ex threw pre"
    by (auto simp: accounted_def)
  then show ?thesis
  proof cases
    case 1
    with a Inl show ?thesis by (simp add: accounted_def)
  next
    case 2
    with a have "a @ b = (a @ pre) @ [Invoke arr (Some e)]" "\<not> list_ex threw (a @ pre)" by simp_all
    with Inl show ?thesis unfolding accounted_def by (simp only: sum.case) blast
  qed
next
  case (Inr v)
  with a b show ?thesis by simp
qed

lemma accounted_Cons:
  "\<not> threw ev \<Longrightarrow> accounted res new \<Longrightarrow> accounted res (ev # new)"
  using accounted_append [of "[ev]" res new] by simp

lemma accounted_thrown: "accounted (Inl e) [Invoke arr (Some e)]"
proof -
  have "[Invoke arr (Some e)] = [] @ [Invoke arr (Some e)] \<and> \<not> list_ex threw []" by simp
  then show ?thesis unfolding accounted_def by (simp only: sum.case) blast
qed

text \<open>What a step adds to the log.\<close>

lemma invoke_log:
  "invoke alg arr s = ((r, arr'), s') \<Longrightarrow> snd s' = snd s @ [Invoke arr r]"
  by (auto simp: invoke_def split: prod.splits)

lemma readClock_log:
  "readClock now s = (t, s') \<Longrightarrow> snd s' = snd s @ [Clock t]"
  by (auto simp: readClock_def split: prod.splits)

lemma repeatInvoke_log:
  "repeatInvoke alg k arr s = (res, s') \<Longrightarrow> \<exists>new. snd s' = snd s @ new \<and> accounted res new"
proof (induction k arbitrary: arr s)
  case 0
  then show ?case by auto
next
  case (Suc k)
  obtain r arr1 s1 where i: "invoke alg arr s = ((r, arr1), s1)" by (metis prod.exhaust)
  have l1: "snd s1 = snd s @ [Invoke arr r]" using i by (rule invoke_log)
  show ?case
  proof (cases r)
    case None
    with Suc.prems i have "repeatInvoke alg k arr1 s1 = (res, s')" by simp
    then obtain new where new: "snd s' = snd s1 @ new" "accounted res new" using Suc.IH by blast
    have "snd s' = snd s @ (Invoke arr None # new)" using new(1) l1 None by simp
    moreover have "accounted res (Invoke arr None # new)"
      using new(2) by (intro accounted_Cons) simp_all
    ultimately show ?thesis by blast
  next
    case (Some e)
    with Suc.prems i have "res = Inl e" "s' = s1" by simp_all
    then show ?thesis using l1 Some accounted_thrown by blast
  qed
qed

lemmas calibrate_simps = calibrate.simps
declare calibrate.simps [simp del]

lemma calibrate_log:
  "calibrate alg now arr calStart calEnd calCount s = (res, s') \<Longrightarrow>
   \<exists>new. snd s' = snd s @ new \<and> accounted res new"
proof (induction alg now arr calStart calEnd calCount s rule: calibrate.induct)
  case (1 alg now arr calStart calEnd calCount s)
  show ?case
  proof (cases "calEnd - calStart < 5 \<and> calCount < 1000000")
    case False
    with "1.prems" have "res = Inr (calEnd, calCount)" "s' = s"
      by (simp_all add: calibrate_simps)
    then show ?thesis by simp
  next
    case True
    obtain r arr1 s1 where i: "invoke alg arr s = ((r, arr1), s1)" by (metis prod.exhaust)
    have l1: "snd s1 = snd s @ [Invoke arr r]" using i by (rule invoke_log)
    show ?thesis
    proof (cases r)
      case (Some e)
      with "1.prems" True i have "res = Inl e" "s' = s1"
        by (simp_all add: calibrate_simps [of alg now arr calStart calEnd calCount s])
      then show ?thesis using l1 Some accounted_thrown by blast
    next
      case None
      obtain t s2 where c: "readClock now s1 = (t, s2)" by (metis prod.exhaust)
      have l2: "snd s2 = snd s1 @ [Clock t]" using c by (rule readClock_log)
      from "1.prems" True i None c
      have "calibrate alg now arr1 calStart t (Suc calCount) s2 = (res, s')"
        by (simp add: calibrate_simps [of alg now arr calStart calEnd calCount s])
      then obtain new where new: "snd s' = snd s2 @ new" "accounted res new"
        using "1.IH" [OF True i [symmetric] _ _ c [symmetric]] None by blast
      have "snd s' = snd s @ (Invoke arr None # Clock t # new)"
        using new(1) l1 l2 None by simp
      moreover have "accounted res (Invoke arr None # Clock t # new)"
        using new(2) by (intro accounted_Cons) simp_all
      ultimately show ?thesis by blast
    qed
  qed
qed

lemma accounted_retag:
  "accounted (res :: exn + 'a) new \<Longrightarrow> (case res of Inl e \<Rightarrow> res' = Inl e | Inr v \<Rightarrow> \<exists>v'. res' = Inr v')
   \<Longrightarrow> accounted (res' :: exn + 'b) new"
  by (cases res) (auto simp: accounted_def)

lemma timedRuns_log:
  "timedRuns alg now k b i s = (res, s') \<Longrightarrow> \<exists>new. snd s' = snd s @ new \<and> accounted res new"
proof (induction i arbitrary: s res s')
  case 0
  then show ?case by auto
next
  case (Suc i)
  show ?case
  proof (cases "generateInputArray k")
    case (Inl e)
    with Suc.prems have "res = Inl e" "s' = s" by simp_all
    then show ?thesis by (simp add: accounted_def)
  next
    case (Inr array)
    obtain start s1 where c1: "readClock now s = (start, s1)" by (metis prod.exhaust)
    obtain rr s2 where b: "repeatInvoke alg (nat b) array s1 = (rr, s2)" by (metis prod.exhaust)
    have l1: "snd s1 = snd s @ [Clock start]" using c1 by (rule readClock_log)
    obtain new2 where n2: "snd s2 = snd s1 @ new2" "accounted rr new2"
      using repeatInvoke_log [OF b] by blast
    show ?thesis
    proof (cases rr)
      case (Inl e)
      with Suc.prems Inr c1 b have "res = Inl e" "s' = s2" by simp_all
      moreover have "accounted (Inl e :: exn + jsnum list) (Clock start # new2)"
        using n2(2) Inl by (intro accounted_Cons) (simp_all add: accounted_def)
      moreover have "snd s2 = snd s @ (Clock start # new2)" using n2(1) l1 by simp
      ultimately show ?thesis by blast
    next
      case (Inr arr')
      note rr = this
      obtain fin s3 where c2: "readClock now s2 = (fin, s3)" by (metis prod.exhaust)
      have l3: "snd s3 = snd s2 @ [Clock fin]" using c2 by (rule readClock_log)
      obtain r4 s4 where t: "timedRuns alg now k b i s3 = (r4, s4)" by (metis prod.exhaust)
      obtain new4 where n4: "snd s4 = snd s3 @ new4" "accounted r4 new4"
        using Suc.IH [OF t] by blast
      have res: "s' = s4" "case r4 of Inl e \<Rightarrow> res = Inl e | Inr v \<Rightarrow> \<exists>v'. res = Inr v'"
        using Suc.prems \<open>generateInputArray k = Inr array\<close> c1 b rr c2 t
        by (auto split: sum.splits)
      have q: "\<not> list_ex threw (Clock start # new2 @ [Clock fin])"
        using n2(2) rr by simp
      have "accounted res ((Clock start # new2 @ [Clock fin]) @ new4)"
        using q accounted_retag [OF n4(2) res(2)] by (rule accounted_append)
      moreover have "snd s' = snd s @ ((Clock start # new2 @ [Clock fin]) @ new4)"
        using res(1) n4(1) l3 n2(1) l1 by simp
      ultimately show ?thesis by blast
    qed
  qed
qed

lemma measureSize_log:
  assumes "measureSize alg now iterations k s = (res, s')"
  shows "\<exists>new. snd s' = snd s @ new \<and> accounted res new"
proof (cases "generateInputArray k")
  case (Inl e)
  with assms have "res = Inl e" "s' = s" by (simp_all add: measureSize_def)
  then show ?thesis by (simp add: accounted_def)
next
  case (Inr array)
  obtain calStart s1 where c1: "readClock now s = (calStart, s1)" by (metis prod.exhaust)
  have l1: "snd s1 = snd s @ [Clock calStart]" using c1 by (rule readClock_log)
  obtain rc s2 where c: "calibrate alg now array calStart calStart 0 s1 = (rc, s2)"
    by (metis prod.exhaust)
  obtain new2 where n2: "snd s2 = snd s1 @ new2" "accounted rc new2"
    using calibrate_log [OF c] by blast
  show ?thesis
  proof (cases rc)
    case (Inl e)
    with assms Inr c1 c have "res = Inl e" "s' = s2" by (simp_all add: measureSize_def)
    moreover have "accounted (Inl e :: exn + dataPoint) (Clock calStart # new2)"
      using n2(2) Inl by (intro accounted_Cons) (simp_all add: accounted_def)
    moreover have "snd s2 = snd s @ (Clock calStart # new2)" using n2(1) l1 by simp
    ultimately show ?thesis by blast
  next
    case (Inr ec)
    note rc = this
    obtain calEnd calCount where ec: "ec = (calEnd, calCount)" by (metis prod.exhaust)
    obtain r3 s3 where t: "timedRuns alg now k (batchSizeOf (calEnd - calStart) calCount) iterations s2 = (r3, s3)"
      by (metis prod.exhaust)
    obtain new3 where n3: "snd s3 = snd s2 @ new3" "accounted r3 new3"
      using timedRuns_log [OF t] by blast
    have s': "s' = s3"
      using assms \<open>generateInputArray k = Inr array\<close> c1 c rc ec t
      by (auto simp: measureSize_def Let_def split: sum.splits)
    have q: "\<not> list_ex threw (Clock calStart # new2)" using n2(2) rc by simp
    have log: "snd s' = snd s @ ((Clock calStart # new2) @ new3)"
      using s' n3(1) n2(1) l1 by simp
    show ?thesis
    proof (cases r3)
      case (Inl e)
      with assms \<open>generateInputArray k = Inr array\<close> c1 c rc ec t have "res = Inl e"
        by (simp add: measureSize_def Let_def)
      moreover have "accounted (Inl e :: exn + dataPoint) ((Clock calStart # new2) @ new3)"
        using q n3(2) Inl by (intro accounted_append) (simp_all add: accounted_def)
      ultimately show ?thesis using log by blast
    next
      case (Inr samples)
      then have "\<not> list_ex threw ((Clock calStart # new2) @ new3)" using q n3(2) by simp
      then have "accounted res ((Clock calStart # new2) @ new3)"
        by (cases res) (simp_all add: accounted_def)
      then show ?thesis using log by blast
    qed
  qed
qed

lemma measureAll_log:
  "measureAll alg now iterations sizes s = (res, s') \<Longrightarrow>
   \<exists>new. snd s' = snd s @ new \<and> accounted res new"
proof (induction sizes arbitrary: s res s')
  case Nil
  then show ?case by auto
next
  case (Cons k sizes)
  obtain r1 s1 where m: "measureSize alg now iterations k s = (r1, s1)" by (metis prod.exhaust)
  obtain new1 where n1: "snd s1 = snd s @ new1" "accounted r1 new1"
    using measureSize_log [OF m] by blast
  show ?case
  proof (cases r1)
    case (Inl e)
    with Cons.prems m have "res = Inl e" "s' = s1" by simp_all
    moreover have "accounted (Inl e :: exn + dataPoint list) new1"
      using n1(2) Inl by (simp add: accounted_def)
    ultimately show ?thesis using n1(1) by blast
  next
    case (Inr d)
    obtain r2 s2 where a: "measureAll alg now iterations sizes s1 = (r2, s2)" by (metis prod.exhaust)
    obtain new2 where n2: "snd s2 = snd s1 @ new2" "accounted r2 new2"
      using Cons.IH [OF a] by blast
    have res: "s' = s2" "case r2 of Inl e \<Rightarrow> res = Inl e | Inr v \<Rightarrow> \<exists>v'. res = Inr v'"
      using Cons.prems m Inr a by (auto split: sum.splits)
    have "\<not> list_ex threw new1" using n1(2) Inr by simp
    then have "accounted res (new1 @ new2)"
      using accounted_retag [OF n2(2) res(2)] by (rule accounted_append)
    moreover have "snd s' = snd s @ (new1 @ new2)" using res(1) n2(1) n1(1) by simp
    ultimately show ?thesis by blast
  qed
qed

lemma warmup_log:
  assumes "warmup alg inputSizes s = (res, s')"
  shows "\<exists>new. snd s' = snd s @ new \<and> accounted res new"
proof (cases inputSizes)
  case Nil
  with assms show ?thesis by (auto simp: warmup_def)
next
  case (Cons k sizes)
  show ?thesis
  proof (cases "generateInputArray k")
    case (Inl e)
    with assms Cons have "res = Inl e" "s' = s" by (simp_all add: warmup_def)
    then show ?thesis by (simp add: accounted_def)
  next
    case (Inr array)
    obtain rr s1 where r: "repeatInvoke alg 100 array s = (rr, s1)" by (metis prod.exhaust)
    obtain new where n: "snd s1 = snd s @ new" "accounted rr new"
      using repeatInvoke_log [OF r] by blast
    have "s' = s1" "case rr of Inl e \<Rightarrow> res = Inl e | Inr v \<Rightarrow> \<exists>v'. res = Inr v'"
      using assms Cons Inr r by (auto simp: warmup_def split: sum.splits)
    then show ?thesis using n accounted_retag by blast
  qed
qed

lemma runAnalysis_log:
  assumes "runAnalysis alg now inputSizes iterations w = (res, s')"
  shows "accounted res (snd s')"
proof -
  obtain r1 s1 where wu: "warmup alg inputSizes (w, []) = (r1, s1)" by (metis prod.exhaust)
  obtain new1 where n1: "snd s1 = new1" "accounted r1 new1"
    using warmup_log [OF wu] by auto
  show ?thesis
  proof (cases r1)
    case (Inl e)
    with assms wu have "res = Inl e" "s' = s1" by (simp_all add: runAnalysis_def)
    then show ?thesis using n1 Inl by (simp add: accounted_def)
  next
    case (Inr u)
    with assms wu have "measureAll alg now iterations inputSizes s1 = (res, s')"
      by (simp add: runAnalysis_def)
    then obtain new2 where n2: "snd s' = snd s1 @ new2" "accounted res new2"
      using measureAll_log by blast
    have "\<not> list_ex threw new1" using n1(2) Inr by simp
    then have "accounted res (new1 @ new2)" using n2(2) by (rule accounted_append)
    then show ?thesis using n2(1) n1(1) by simp
  qed
qed

lemma thrown_propagates:
  assumes "runAnalysis alg now inputSizes iterations w = (res, s')"
    and "Invoke arr (Some e) \<in> set (snd s')"
  shows "res = Inl e \<and> last (snd s') = Invoke arr (Some e)"
proof -
  have a: "accounted res (snd s')" using assms(1) by (rule runAnalysis_log)
  have "threw (Invoke arr (Some e))" by simp
  with assms(2) have t: "list_ex threw (snd s')" unfolding list_ex_iff by blast
  from a t obtain e' pre arr' where r: "res = Inl e'" "snd s' = pre @ [Invoke arr' (Some e')]"
    "\<not> list_ex threw pre"
    by (cases res) (auto simp: accounted_def)
  from r(3) have "Invoke arr (Some e) \<notin> set pre"
    using \<open>threw (Invoke arr (Some e))\<close> unfolding list_ex_iff by blast
  with assms(2) r(2) have "arr' = arr" "e' = e" by auto
  then show ?thesis using r by simp
qed

section \<open>Runs of an algorithm that never throws; the calibration\<close>

lemma calibrate_exit:
  "\<not> (calEnd - calStart < 5 \<and> calCount < 1000000) \<Longrightarrow>
   calibrate alg now arr calStart calEnd calCount s = (Inr (calEnd, calCount), s)"
  by (subst calibrate_simps) auto

lemma calibrate_step:
  "calEnd - calStart < 5 \<and> calCount < 1000000 \<Longrightarrow> invoke alg arr s = ((None, arr1), s1) \<Longrightarrow>
   readClock now s1 = (t, s2) \<Longrightarrow>
   calibrate alg now arr calStart calEnd calCount s
     = calibrate alg now arr1 calStart t (Suc calCount) s2"
  by (subst calibrate_simps) simp


lemma invoke_neverThrows:
  assumes "neverThrows alg"
  shows "\<exists>arr' s'. invoke alg arr s = ((None, arr'), s')"
proof -
  obtain r arr' w' where a: "alg arr (fst s) = (r, arr', w')" by (metis prod.exhaust)
  from assms have "fst (alg arr (fst s)) = None" by (simp add: neverThrows_def)
  with a have "r = None" by simp
  with a show ?thesis by (simp add: invoke_def)
qed

lemma repeatInvoke_ok:
  "neverThrows alg \<Longrightarrow> \<exists>arr' s'. repeatInvoke alg k arr s = (Inr arr', s')"
proof (induction k arbitrary: arr s)
  case 0
  then show ?case by simp
next
  case (Suc k)
  obtain arr1 s1 where "invoke alg arr s = ((None, arr1), s1)"
    using invoke_neverThrows [OF Suc.prems] by blast
  then show ?case using Suc.IH [OF Suc.prems] by simp
qed

lemma calibrate_ok:
  "neverThrows alg \<Longrightarrow>
   \<exists>e c s'. calibrate alg now arr calStart calEnd calCount s = (Inr (e, c), s')"
proof (induction alg now arr calStart calEnd calCount s rule: calibrate.induct)
  case (1 alg now arr calStart calEnd calCount s)
  show ?case
  proof (cases "calEnd - calStart < 5 \<and> calCount < 1000000")
    case False
    then show ?thesis by (simp add: calibrate_exit)
  next
    case True
    obtain arr1 s1 where i: "invoke alg arr s = ((None, arr1), s1)"
      using invoke_neverThrows [OF "1.prems"] by blast
    obtain t s2 where c: "readClock now s1 = (t, s2)" by (metis prod.exhaust)
    have "\<exists>e c s'. calibrate alg now arr1 calStart t (Suc calCount) s2 = (Inr (e, c), s')"
      using "1.IH" [OF True i [symmetric] _ _ c [symmetric]] "1.prems" by simp
    then show ?thesis by (simp only: calibrate_step [OF True i c])
  qed
qed




lemma generateInputArray_ok: "k < 2 ^ 32 \<Longrightarrow> generateInputArray k = Inr (map int [0..<nat k])"
  by (simp add: generateInputArray_def)

lemma timedRuns_ok:
  "neverThrows alg \<Longrightarrow> k < 2 ^ 32 \<Longrightarrow>
   \<exists>samples s'. timedRuns alg now k b i s = (Inr samples, s') \<and> length samples = i"
proof (induction i arbitrary: s)
  case 0
  then show ?case by simp
next
  case (Suc i)
  obtain start s1 where c1: "readClock now s = (start, s1)" by (metis prod.exhaust)
  obtain arr' s2 where b: "repeatInvoke alg (nat b) (map int [0..<nat k]) s1 = (Inr arr', s2)"
    using repeatInvoke_ok [OF Suc.prems(1)] by blast
  obtain fin s3 where c2: "readClock now s2 = (fin, s3)" by (metis prod.exhaust)
  obtain samples s4 where t: "timedRuns alg now k b i s3 = (Inr samples, s4)" "length samples = i"
    using Suc.IH [OF Suc.prems] by blast
  show ?case
    by (simp add: generateInputArray_ok [OF Suc.prems(2)] c1 b c2 t)
qed

lemma measureSize_ok:
  assumes "neverThrows alg" and "k < 2 ^ 32" and "0 < iterations"
  shows "\<exists>d s'. measureSize alg now iterations k s = (Inr d, s') \<and> dp_n d = k"
proof -
  obtain calStart s1 where c1: "readClock now s = (calStart, s1)" by (metis prod.exhaust)
  obtain e c s2 where c: "calibrate alg now (map int [0..<nat k]) calStart calStart 0 s1 = (Inr (e, c), s2)"
    using calibrate_ok [OF assms(1)] by blast
  obtain samples s3 where t:
    "timedRuns alg now k (batchSizeOf (e - calStart) c) iterations s2 = (Inr samples, s3)"
    "length samples = iterations"
    using timedRuns_ok [OF assms(1,2)] by blast
  from t(2) assms(3) have "samples \<noteq> []" by auto
  then obtain avg where "ss_mean samples = Inr avg" by (simp add: ss_mean_def)
  then show ?thesis
    by (simp add: measureSize_def generateInputArray_ok [OF assms(2)] c1 c t(1) Let_def)
qed

lemma measureAll_ok:
  "neverThrows alg \<Longrightarrow> \<forall>k\<in>set sizes. k < 2 ^ 32 \<Longrightarrow> 0 < iterations \<Longrightarrow>
   \<exists>dataPoints s'. measureAll alg now iterations sizes s = (Inr dataPoints, s')
      \<and> map dp_n dataPoints = sizes"
proof (induction sizes arbitrary: s)
  case Nil
  then show ?case by simp
next
  case (Cons k sizes)
  obtain d s1 where m: "measureSize alg now iterations k s = (Inr d, s1)" "dp_n d = k"
    using measureSize_ok [of alg k iterations now s] Cons.prems by auto
  obtain ds s2 where a: "measureAll alg now iterations sizes s1 = (Inr ds, s2)" "map dp_n ds = sizes"
    using Cons.IH [of s1] Cons.prems by auto
  show ?case by (simp add: m a)
qed

lemma warmup_ok:
  assumes "neverThrows alg" and "\<forall>k\<in>set sizes. k < 2 ^ 32"
  shows "\<exists>s'. warmup alg sizes s = (Inr (), s')"
proof (cases sizes)
  case Nil
  then show ?thesis by (simp add: warmup_def)
next
  case (Cons k rest)
  with assms(2) have k: "k < 2 ^ 32" by simp
  obtain arr' s1 where "repeatInvoke alg 100 (map int [0..<nat k]) s = (Inr arr', s1)"
    using repeatInvoke_ok [OF assms(1)] by blast
  then show ?thesis by (simp add: warmup_def Cons generateInputArray_ok [OF k])
qed

lemma runAnalysis_ok:
  assumes "neverThrows alg" and "\<forall>k\<in>set sizes. k < 2 ^ 32" and "0 < iterations"
  shows "\<exists>dataPoints s'. runAnalysis alg now sizes iterations w = (Inr dataPoints, s')
           \<and> map dp_n dataPoints = sizes"
proof -
  obtain s1 where w: "warmup alg sizes (w, []) = (Inr (), s1)"
    using warmup_ok [OF assms(1,2)] by blast
  obtain ds s2 where "measureAll alg now iterations sizes s1 = (Inr ds, s2)" "map dp_n ds = sizes"
    using measureAll_ok [OF assms] by blast
  then show ?thesis by (simp add: runAnalysis_def w)
qed

lemma invocations_simps [simp]:
  "invocations [] = 0"
  "invocations (Invoke arr r # evs) = Suc (invocations evs)"
  "invocations (Clock t # evs) = invocations evs"
  by (simp_all add: invocations_def)



section \<open>The example algorithms and clocks\<close>

lemma repeatInvoke_before_throw:
  "c + k \<le> j \<Longrightarrow>
   repeatInvoke (throwingAlgorithm j) k arr ((c, r), tr)
     = (Inr arr, ((c + k, r), tr @ replicate k (Invoke arr None)))"
proof (induction k arbitrary: c tr)
  case 0
  then show ?case by simp
next
  case (Suc k)
  then have "c \<noteq> j" "Suc c + k \<le> j" by simp_all
  then show ?case
    using Suc.IH [of "Suc c" "tr @ [Invoke arr None]"]
    by (simp add: invoke_def throwingAlgorithm_def replicate_append_same)
qed

lemma repeatInvoke_quiet:
  "repeatInvoke quietAlgorithm k arr (w, tr) = (Inr arr, (w, tr @ replicate k (Invoke arr None)))"
proof (induction k arbitrary: tr)
  case 0
  then show ?case by simp
next
  case (Suc k)
  show ?case
    using Suc.IH [of "tr @ [Invoke arr None]"]
    by (simp add: invoke_def quietAlgorithm_def replicate_append_same)
qed

lemma generateInputArray_2: "generateInputArray 2 = Inr [0, 1]"
  by (simp add: generateInputArray_def upt_rec)

lemma run_throwing_in_calibration: "runAnalysis (throwingAlgorithm 100) steppingClock [2] 10 (0, 0)
     = (Inl (JsError ''TypeError'' ''boom''),
        ((101, 1), replicate 100 (Invoke [0, 1] None)
                   @ [Clock 0, Invoke [0, 1] (Some (JsError ''TypeError'' ''boom''))]))"
proof -
  have w: "warmup (throwingAlgorithm 100) [2] ((0, 0), [])
             = (Inr (), ((100, 0), replicate 100 (Invoke [0, 1] None)))"
    using repeatInvoke_before_throw [of 0 100 100 "[0, 1]" 0 "[]"]
    by (simp add: warmup_def generateInputArray_2)
  have m: "measureSize (throwingAlgorithm 100) steppingClock 10 2
                  ((100, 0), replicate 100 (Invoke [0, 1] None))
             = (Inl (JsError ''TypeError'' ''boom''),
        ((101, 1), replicate 100 (Invoke [0, 1] None)
                   @ [Clock 0, Invoke [0, 1] (Some (JsError ''TypeError'' ''boom''))]))"
    by (simp add: measureSize_def generateInputArray_2 readClock_def steppingClock_def
          calibrate_simps [of _ _ _ _ _ 0] invoke_def throwingAlgorithm_def)
  show ?thesis
    by (simp add: runAnalysis_def w m)
qed

lemma run_throwing_in_warmup: "runAnalysis (throwingAlgorithm 0) steppingClock [2] 10 (0, 0)
     = (Inl (JsError ''TypeError'' ''boom''),
        ((1, 0), [Invoke [0, 1] (Some (JsError ''TypeError'' ''boom''))]))"
  by (simp add: runAnalysis_def warmup_def generateInputArray_2 numeral_eq_Suc invoke_def throwingAlgorithm_def)


lemma gen_negative: "k < 0 \<Longrightarrow> generateInputArray k = Inr []"
  by (simp add: generateInputArray_def)

lemma readClock_stepping:
  "readClock steppingClock ((c, r), tr) = (5 * real r, ((c, Suc r), tr @ [Clock (5 * real r)]))"
  by (simp add: readClock_def steppingClock_def)

lemma invoke_quiet:
  "invoke quietAlgorithm arr (w, tr) = ((None, arr), (w, tr @ [Invoke arr None]))"
  by (simp add: invoke_def quietAlgorithm_def)

lemma calibrate_quiet_stepping:
  "\<exists>tr'. calibrate quietAlgorithm steppingClock arr (5 * real r) (5 * real r) 0 ((c, Suc r), tr)
     = (Inr (5 * real (Suc r), 1), ((c, Suc (Suc r)), tr'))"
proof -
  have go: "5 * real r - 5 * real r < 5 \<and> (0 :: nat) < 1000000" by simp
  have "calibrate quietAlgorithm steppingClock arr (5 * real r) (5 * real r) 0 ((c, Suc r), tr)
      = calibrate quietAlgorithm steppingClock arr (5 * real r) (5 * real (Suc r)) (Suc 0)
          ((c, Suc (Suc r)), (tr @ [Invoke arr None]) @ [Clock (5 * real (Suc r))])"
    using go invoke_quiet readClock_stepping by (rule calibrate_step)
  also have "\<dots> = (Inr (5 * real (Suc r), Suc 0),
                    ((c, Suc (Suc r)), (tr @ [Invoke arr None]) @ [Clock (5 * real (Suc r))]))"
    by (rule calibrate_exit) simp
  finally show ?thesis by simp
qed

lemma timedRuns_quiet_stepping:
  "k < 2 ^ 32 \<Longrightarrow>
   \<exists>s'. timedRuns quietAlgorithm steppingClock k 1 i ((c, r), tr) = (Inr (replicate i (Fin 5)), s')"
proof (induction i arbitrary: r tr)
  case 0
  then show ?case by simp
next
  case (Suc i)
  let ?arr = "map int [0..<nat k]"
  obtain s' where "timedRuns quietAlgorithm steppingClock k 1 i
          ((c, Suc (Suc r)), tr @ [Clock (5 * real r), Invoke ?arr None, Clock (5 * real (Suc r))])
        = (Inr (replicate i (Fin 5)), s')"
    using Suc.IH [OF Suc.prems] by blast
  then show ?case
    by (simp add: generateInputArray_ok [OF Suc.prems] readClock_stepping invoke_quiet)
qed

lemma ss_mean_replicate: "0 < i \<Longrightarrow> ss_mean (replicate i (Fin t)) = Inr (Fin t)"
proof -
  assume i: "0 < i"
  have "replicate i (Fin t) = map Fin (replicate i t)" by simp
  then have "ss_sum (replicate i (Fin t)) = Fin (real i * t)"
    by (simp only: ss_sum_Fin sum_list_replicate)
  then show ?thesis using i by (simp add: ss_mean_def)
qed

lemma measureSize_quiet_stepping:
  assumes "k < 2 ^ 32" and "0 < iterations"
  shows "\<exists>c' r' tr'. measureSize quietAlgorithm steppingClock iterations k ((c, r), tr)
            = (Inr \<lparr>dp_n = k, dp_time = Fin 5\<rparr>, ((c', r'), tr'))"
proof -
  let ?arr = "map int [0..<nat k]"
  obtain tr1 where cal: "calibrate quietAlgorithm steppingClock ?arr (5 * real r) (5 * real r) 0
         ((c, Suc r), tr @ [Clock (5 * real r)]) = (Inr (5 * real (Suc r), 1), ((c, Suc (Suc r)), tr1))"
    using calibrate_quiet_stepping by blast
  obtain s' where t: "timedRuns quietAlgorithm steppingClock k 1 iterations ((c, Suc (Suc r)), tr1)
       = (Inr (replicate iterations (Fin 5)), s')"
    using timedRuns_quiet_stepping [OF assms(1)] by blast
  obtain c' r' tr' where s': "s' = ((c', r'), tr')" by (metis prod.exhaust)
  show ?thesis
    by (simp add: measureSize_def generateInputArray_ok [OF assms(1)] readClock_stepping cal
          batchSizeOf_def t ss_mean_replicate [OF assms(2)] s')
qed

lemma run_negative:
  "fst (runAnalysis quietAlgorithm steppingClock [- 3] 10 (0, 0)) = Inr [\<lparr>dp_n = - 3, dp_time = Fin 5\<rparr>]"
proof -
  have w: "warmup quietAlgorithm [- 3] ((0 :: nat, 0 :: nat), [])
            = (Inr (), ((0, 0), replicate 100 (Invoke [] None)))"
    by (simp add: warmup_def gen_negative repeatInvoke_quiet)
  obtain c' r' tr' where "measureSize quietAlgorithm steppingClock 10 (- 3)
         ((0, 0), replicate 100 (Invoke [] None)) = (Inr \<lparr>dp_n = - 3, dp_time = Fin 5\<rparr>, ((c', r'), tr'))"
    using measureSize_quiet_stepping [of "- 3" 10 0 0 "replicate 100 (Invoke [] None)"] by auto
  then show ?thesis by (simp add: runAnalysis_def w)
qed


section \<open>The cells that a step on the store keeps\<close>

lemma keeps_weaken: "keeps k f Q \<Longrightarrow> (\<And>x. Q x \<Longrightarrow> R x) \<Longrightarrow> keeps k f R"
  unfolding keeps_def by blast

lemma keeps_thenDo:
  assumes f: "keeps k f Q" and g: "\<And>x. Q x \<Longrightarrow> keeps k (g x) R"
  shows "keeps k (thenDo f g) R"
  unfolding keeps_def
proof (intro allI impI)
  fix h res h'
  assume k: "k \<le> length h" and run: "thenDo f g h = (res, h')"
  obtain r1 h1 where f1: "f h = (r1, h1)" by (metis prod.exhaust)
  have 1: "k \<le> length h1" "take k h1 = take k h" "\<forall>x. r1 = Inr x \<longrightarrow> Q x"
    using f k f1 unfolding keeps_def by blast+
  show "k \<le> length h' \<and> take k h' = take k h \<and> (\<forall>x. res = Inr x \<longrightarrow> R x)"
  proof (cases r1)
    case (Inl e)
    with run f1 have "res = Inl e" "h' = h1" by (simp_all add: thenDo_def)
    with 1 show ?thesis by simp
  next
    case (Inr x)
    with run f1 have "g x h1 = (res, h')" by (simp add: thenDo_def)
    moreover have "keeps k (g x) R" using g 1(3) Inr by blast
    ultimately have "k \<le> length h' \<and> take k h' = take k h1 \<and> (\<forall>x. res = Inr x \<longrightarrow> R x)"
      using 1(1) unfolding keeps_def by blast
    with 1(2) show ?thesis by simp
  qed
qed

lemma keeps_give: "Q x \<Longrightarrow> keeps k (give x) Q"
  by (simp add: keeps_def give_def)

lemma keeps_orThrow: "keeps k (orThrow r) (\<lambda>x. True)"
  by (simp add: keeps_def orThrow_def)

lemma keeps_alloc: "keeps k (alloc c) (\<lambda>a. k \<le> a)"
  by (auto simp: keeps_def alloc_def)

lemma keeps_readVia: "keeps k (readVia decode a) (\<lambda>x. True)"
  by (auto simp: keeps_def readVia_def split: option.splits)

lemma keeps_sortInPlace: "k \<le> a \<Longrightarrow> keeps k (sortInPlace key a) (\<lambda>x. True)"
  by (auto simp: keeps_def sortInPlace_def split: option.splits)

lemma keeps_allocAll: "keeps k (allocAll cs) (\<lambda>x. True)"
proof (induction cs)
  case Nil
  then show ?case by (simp add: keeps_give)
next
  case (Cons c cs)
  show ?case
    unfolding allocAll.simps
    by (rule keeps_thenDo [OF keeps_alloc] keeps_thenDo [OF Cons] keeps_give TrueI)+
qed

lemma keeps_regressionOnHeap: "keeps k (regressionOnHeap transformFn a timeValues) (\<lambda>x. True)"
  unfolding regressionOnHeap_def Let_def
  by (rule keeps_thenDo [OF keeps_alloc] keeps_thenDo [OF keeps_allocAll]
        keeps_thenDo [OF keeps_readVia] keeps_give TrueI)+

lemma keeps_buildModelsOnHeap:
  "keeps k (buildModelsOnHeap a) (\<lambda>(meanTime, timeValues, models). k \<le> models)"
  unfolding buildModelsOnHeap_def Let_def
  apply (rule keeps_thenDo [OF keeps_readVia])
  apply (rule keeps_thenDo [OF keeps_alloc])
  apply (rule keeps_thenDo [OF keeps_readVia])
  apply (rule keeps_thenDo [OF keeps_alloc])
  apply (rule keeps_thenDo [OF keeps_orThrow])
  apply (rule keeps_thenDo [OF keeps_alloc])
  apply (rule keeps_thenDo [OF keeps_regressionOnHeap])
  apply (rule keeps_thenDo [OF keeps_regressionOnHeap])
  apply (rule keeps_thenDo [OF keeps_regressionOnHeap])
  apply (rule keeps_thenDo [OF keeps_regressionOnHeap])
  apply (rule keeps_thenDo [OF keeps_allocAll])
  apply (rule keeps_thenDo [OF keeps_alloc])
  apply (rule keeps_give)
  apply simp
  done

lemma keeps_analyseOnHeap:
  "k \<le> models \<Longrightarrow> keeps k (analyseOnHeap models meanTime timeValues) (\<lambda>x. True)"
  unfolding analyseOnHeap_def Let_def
  apply (rule keeps_thenDo [OF keeps_readVia])
  apply (rule keeps_thenDo [OF keeps_orThrow])
  apply (rule keeps_thenDo [where Q = "\<lambda>x. True"])
   apply (simp split: if_splits)
   apply (intro conjI impI)
    apply (rule keeps_give, simp)
   apply (rule keeps_thenDo [OF keeps_readVia])
   apply (rule keeps_thenDo [OF keeps_alloc])
   apply (rule keeps_sortInPlace, assumption)
  apply (rule keeps_thenDo [OF keeps_readVia])
  apply (rule keeps_thenDo [OF keeps_allocAll])
  apply (rule keeps_thenDo [OF keeps_alloc])
  apply (rule keeps_thenDo [OF keeps_sortInPlace], assumption)
  apply (rule keeps_weaken [OF keeps_alloc], simp)
  done

lemma keeps_determineComplexityOnHeap: "keeps k (determineComplexityOnHeap a) (\<lambda>x. True)"
  unfolding determineComplexityOnHeap_def
  apply (rule keeps_thenDo [OF keeps_buildModelsOnHeap])
  apply (clarsimp)
  apply (rule keeps_thenDo [OF keeps_sortInPlace], assumption)
  apply (rule keeps_analyseOnHeap, assumption)
  done

text \<open>What is read through the kept cells is read again in the later store.\<close>

lemma cellAt_prefix:
  assumes "length h \<le> length h'" and "take (length h) h' = h" and "cellAt h v = Some c"
  shows "cellAt h' v = Some c"
proof (cases v)
  case (Num x)
  with assms(3) show ?thesis by (simp add: cellAt_def)
next
  case (Ref p)
  with assms(3) have p: "p < length h" "h ! p = c"
    by (auto simp: cellAt_def split: if_splits)
  have "h' ! p = take (length h) h' ! p" using p(1) by simp
  then have "h' ! p = c" using assms(2) p(2) by simp
  then show ?thesis using Ref p(1) assms(1) by (simp add: cellAt_def)
qed

lemma pointOf_prefix:
  assumes "length h \<le> length h'" and "take (length h) h' = h" and "pointOf h v = Some d"
  shows "pointOf h' v = Some d"
proof -
  from assms(3) have "cellAt h v = Some (PointObj d)"
    by (auto simp: pointOf_def split: option.splits cell.splits)
  then have "cellAt h' v = Some (PointObj d)" using cellAt_prefix [OF assms(1,2)] by blast
  then show ?thesis by (simp add: pointOf_def)
qed

lemma those_map_Some:
  assumes "those (map f xs) = Some ys" and "\<forall>x\<in>set xs. g x = f x"
  shows "those (map g xs) = Some ys"
proof -
  have eq: "map g xs = map f xs" using assms(2) by simp
  show ?thesis unfolding eq by (rule assms(1))
qed

lemma those_Some_all: "those xs = Some ys \<Longrightarrow> \<forall>x\<in>set xs. x \<noteq> None"
  by (induction xs arbitrary: ys) (auto split: option.splits)

lemma pointsAt_prefix:
  assumes le: "length h \<le> length h'" and tk: "take (length h) h' = h"
    and pts: "pointsAt h a = Some pts"
  shows "pointsAt h' a = Some pts"
proof -
  from pts obtain vs where vs: "elementsAt h a = Some vs" "those (map (pointOf h) vs) = Some pts"
    by (auto simp: pointsAt_def allOf_def split: option.splits)
  from vs(1) have "cellAt h (Ref a) = Some (Arr vs)"
    by (auto simp: elementsAt_def split: option.splits cell.splits)
  then have "cellAt h' (Ref a) = Some (Arr vs)" using cellAt_prefix [OF le tk] by blast
  then have e: "elementsAt h' a = Some vs" by (simp add: elementsAt_def)
  have "\<forall>v\<in>set vs. pointOf h' v = pointOf h v"
  proof
    fix v assume "v \<in> set vs"
    then have "pointOf h v \<noteq> None" using those_Some_all [OF vs(2)] by auto
    then obtain d where "pointOf h v = Some d" by blast
    then show "pointOf h' v = pointOf h v" using pointOf_prefix [OF le tk] by simp
  qed
  then have "those (map (pointOf h') vs) = Some pts" using those_map_Some [OF vs(2)] by blast
  then show ?thesis using e by (simp add: pointsAt_def allOf_def)
qed

section \<open>The value computed on the store\<close>

text \<open>
  On an input of the declared shape the function on the store returns what the pure
  \<open>determineComplexity\<close> returns, and throws what it throws.
\<close>

lemma decodes_pointOf: "decodes pointOf (\<lambda>c. case c of PointObj d \<Rightarrow> Some d | _ \<Rightarrow> None)"
  by (auto simp: decodes_def pointOf_def split: option.splits cell.splits)

lemma decodes_modelOf: "decodes modelOf (\<lambda>c. case c of ModelObj d \<Rightarrow> Some d | _ \<Rightarrow> None)"
  by (auto simp: decodes_def modelOf_def split: option.splits cell.splits)

lemma decodes_fitOf: "decodes fitOf (\<lambda>c. case c of FitObj d \<Rightarrow> Some d | _ \<Rightarrow> None)"
  by (auto simp: decodes_def fitOf_def split: option.splits cell.splits)

lemma pointsAt_arrayOf: "pointsAt h a = arrayOf pointOf h a"
  by (simp add: pointsAt_def arrayOf_def)

lemma cellAt_append: "cellAt h v = Some c \<Longrightarrow> cellAt (h @ cs) v = Some c"
  by (auto simp: cellAt_def nth_append split: val.splits if_splits)

lemma cellAt_update: "v \<noteq> Ref a \<Longrightarrow> cellAt (h[a := c]) v = cellAt h v"
  by (cases v) (auto simp: cellAt_def nth_list_update)

lemma cellAt_update_same: "a < length h \<Longrightarrow> cellAt (h[a := c]) (Ref a) = Some c"
  by (simp add: cellAt_def)

lemma those_map_conv:
  "those (map f vs) = Some xs \<longleftrightarrow> list_all2 (\<lambda>v x. f v = Some x) vs xs"
proof (induction vs arbitrary: xs)
  case Nil
  show ?case by auto
next
  case (Cons v vs)
  show ?case
  proof (cases "f v")
    case None
    then show ?thesis by (auto simp: list_all2_Cons1)
  next
    case (Some x)
    then show ?thesis using Cons [symmetric]
      by (auto simp: list_all2_Cons1 split: option.splits)
  qed
qed

lemma arrayOf_conv:
  "arrayOf decode h a = Some xs \<longleftrightarrow>
     (\<exists>vs. elementsAt h a = Some vs \<and> list_all2 (\<lambda>v x. decode h v = Some x) vs xs)"
  by (auto simp: arrayOf_def allOf_def those_map_conv split: option.splits)

lemma elementsAt_conv: "elementsAt h a = Some vs \<longleftrightarrow> cellAt h (Ref a) = Some (Arr vs)"
  by (auto simp: elementsAt_def split: option.splits cell.splits)

lemma arrayOf_mono:
  assumes d: "decodes decode dec" and arr: "arrayOf decode h a = Some xs"
    and sub: "\<And>v c. cellAt h v = Some c \<Longrightarrow> cellAt h' v = Some c"
  shows "arrayOf decode h' a = Some xs"
proof -
  from arr obtain vs where vs: "elementsAt h a = Some vs"
    and rel: "list_all2 (\<lambda>v x. decode h v = Some x) vs xs"
    unfolding arrayOf_conv by blast
  have e: "elementsAt h' a = Some vs" using vs sub unfolding elementsAt_conv by blast
  have step: "\<And>v x. decode h v = Some x \<Longrightarrow> decode h' v = Some x"
  proof -
    fix v x assume "decode h v = Some x"
    then have "Option.bind (cellAt h v) dec = Some x" using d by (simp add: decodes_def)
    then obtain c where "cellAt h v = Some c" "dec c = Some x"
      by (cases "cellAt h v") auto
    then have "Option.bind (cellAt h' v) dec = Some x" using sub by simp
    then show "decode h' v = Some x" using d by (simp add: decodes_def)
  qed
  have "list_all2 (\<lambda>v x. decode h' v = Some x) vs xs"
    by (rule list_all2_mono [OF rel]) (rule step)
  with e show ?thesis unfolding arrayOf_conv by blast
qed

lemma arrayOf_append:
  "decodes decode dec \<Longrightarrow> arrayOf decode h a = Some xs \<Longrightarrow> arrayOf decode (h @ cs) a = Some xs"
  by (erule arrayOf_mono, assumption) (rule cellAt_append)

lemma arrayOf_prefix:
  assumes "decodes decode dec" and "arrayOf decode h a = Some xs"
    and "length h \<le> length h'" and "take (length h) h' = h"
  shows "arrayOf decode h' a = Some xs"
  using assms(1,2) by (rule arrayOf_mono) (rule cellAt_prefix [OF assms(3,4)])

lemma sortInsert_rel:
  assumes c: "\<And>v x w y. R v x \<Longrightarrow> R w y \<Longrightarrow> c' v w = c x y"
  shows "R v x \<Longrightarrow> list_all2 R vs xs \<Longrightarrow> list_all2 R (sortInsert c' v vs) (sortInsert c x xs)"
proof (induction vs arbitrary: xs)
  case Nil
  then show ?case by simp
next
  case (Cons w vs)
  then obtain y ys where xs: "xs = y # ys" "R w y" "list_all2 R vs ys"
    by (auto simp: list_all2_Cons1)
  have "c' v w = c x y" using c Cons.prems(1) xs(2) by blast
  then show ?case using Cons.IH [OF Cons.prems(1) xs(3)] xs Cons.prems(1) by simp
qed

lemma arraySort_rel:
  assumes c: "\<And>v x w y. R v x \<Longrightarrow> R w y \<Longrightarrow> c' v w = c x y"
  shows "list_all2 R vs xs \<Longrightarrow> list_all2 R (arraySort c' vs) (arraySort c xs)"
proof (induction vs arbitrary: xs)
  case Nil
  then show ?case by (simp add: arraySort_def)
next
  case (Cons v vs)
  then obtain x ys where xs: "xs = x # ys" "R v x" "list_all2 R vs ys"
    by (auto simp: list_all2_Cons1)
  have "list_all2 R (arraySort c' vs) (arraySort c ys)" using Cons.IH xs(3) by blast
  then have "list_all2 R (sortInsert c' v (arraySort c' vs)) (sortInsert c x (arraySort c ys))"
    using sortInsert_rel [of R c' c, OF c xs(2)] by blast
  then show ?case using xs(1) by (simp add: arraySort_def)
qed

lemma sortInPlace_sorts:
  assumes d: "decodes decode dec"
    and key: "\<And>h v. key h v = map_option kf (decode h v)"
    and arr: "arrayOf decode h a = Some xs"
  shows "\<exists>vs'. sortInPlace key a h = (Inr (), h[a := Arr vs'])
           \<and> arrayOf decode (h[a := Arr vs']) a = Some (arraySort (\<lambda>x y. js_sub (kf x) (kf y)) xs)"
proof -
  from arr obtain vs where vs: "elementsAt h a = Some vs"
    and rel: "list_all2 (\<lambda>v x. decode h v = Some x) vs xs"
    unfolding arrayOf_conv by blast
  define cmp where "cmp = (\<lambda>x y. case (key h x, key h y) of
                                   (Some p, Some q) \<Rightarrow> js_sub p q | _ \<Rightarrow> NaN)"
  define vs' where "vs' = arraySort cmp vs"
  have a: "a < length h" "cellAt h (Ref a) = Some (Arr vs)"
    using vs unfolding elementsAt_conv by (auto simp: cellAt_def split: if_splits)
  have run: "sortInPlace key a h = (Inr (), h[a := Arr vs'])"
    using vs by (simp add: sortInPlace_def vs'_def cmp_def)
  have sorted: "list_all2 (\<lambda>v x. decode h v = Some x) vs' (arraySort (\<lambda>x y. js_sub (kf x) (kf y)) xs)"
    unfolding vs'_def
  proof (rule arraySort_rel [OF _ rel])
    fix v x w y assume "decode h v = Some x" "decode h w = Some y"
    then show "cmp v w = js_sub (kf x) (kf y)" by (simp add: cmp_def key)
  qed
  have step: "\<And>v x. decode h v = Some x \<Longrightarrow> decode (h[a := Arr vs']) v = Some x"
  proof -
    fix v x assume dv: "decode h v = Some x"
    then have b: "Option.bind (cellAt h v) dec = Some x" using d by (simp add: decodes_def)
    have "v \<noteq> Ref a"
    proof
      assume "v = Ref a"
      then have "dec (Arr vs) = Some x" using b a(2) by simp
      then show False using d by (simp add: decodes_def)
    qed
    then have "cellAt (h[a := Arr vs']) v = cellAt h v" by (rule cellAt_update)
    then show "decode (h[a := Arr vs']) v = Some x" using b d by (simp add: decodes_def)
  qed
  have "list_all2 (\<lambda>v x. decode (h[a := Arr vs']) v = Some x) vs'
                     (arraySort (\<lambda>x y. js_sub (kf x) (kf y)) xs)"
    by (rule list_all2_mono [OF sorted]) (rule step)
  moreover have "elementsAt (h[a := Arr vs']) a = Some vs'"
    unfolding elementsAt_conv using a(1) by (rule cellAt_update_same)
  ultimately show ?thesis using run unfolding arrayOf_conv by blast
qed

lemma allocAll_exact: "allocAll cs h = (Inr [length h..<length h + length cs], h @ cs)"
proof (induction cs arbitrary: h)
  case Nil
  show ?case by (simp add: give_def)
next
  case (Cons c cs)
  have "[length h..<length h + length (c # cs)] = length h # [Suc (length h)..<Suc (length h) + length cs]"
    by (subst upt_rec) simp
  then show ?case using Cons [of "h @ [c]"]
    by (simp add: thenDo_def alloc_def give_def)
qed

lemma fresh_array:
  assumes d: "decodes decode dec" and k: "\<And>x. dec (K x) = Some x"
  shows "arrayOf decode (h @ map K xs @ [Arr (map Ref [length h..<length h + length xs])])
           (length h + length xs) = Some xs"
proof -
  let ?H = "h @ map K xs @ [Arr (map Ref [length h..<length h + length xs])]"
  have e: "elementsAt ?H (length h + length xs) = Some (map Ref [length h..<length h + length xs])"
    unfolding elementsAt_conv by (simp add: cellAt_def nth_append)
  have "list_all2 (\<lambda>v x. decode ?H v = Some x) (map Ref [length h..<length h + length xs]) xs"
  proof (rule list_all2_all_nthI)
    show "length (map Ref [length h..<length h + length xs]) = length xs" by simp
  next
    fix i assume "i < length (map Ref [length h..<length h + length xs])"
    then have i: "i < length xs" by simp
    then have "cellAt ?H (Ref (length h + i)) = Some (K (xs ! i))"
      by (simp add: cellAt_def nth_append)
    then have "decode ?H (Ref (length h + i)) = Some (xs ! i)"
      using d k by (simp add: decodes_def)
    then show "decode ?H (map Ref [length h..<length h + length xs] ! i) = Some (xs ! i)"
      using i by simp
  qed
  with e show ?thesis unfolding arrayOf_conv by blast
qed


lemma thenDo_Inr: "f h = (Inr x, h1) \<Longrightarrow> thenDo f g h = g x h1"
  by (simp add: thenDo_def)

lemma thenDo_Inl: "f h = (Inl e, h1) \<Longrightarrow> thenDo f g h = (Inl e, h1)"
  by (simp add: thenDo_def)

lemma readVia_exact: "arrayOf decode h a = Some xs \<Longrightarrow> readVia decode a h = (Inr xs, h)"
  by (auto simp: arrayOf_def readVia_def split: option.splits)

lemma regressionOnHeap_value:
  assumes pts: "pointsAt h a = Some pts"
  shows "\<exists>cs. regressionOnHeap tr a (map dp_time pts) h = (Inr (getRegressionRMSE tr pts), h @ cs)"
proof -
  have rd: "\<And>cs. readVia pointOf a (h @ cs) = (Inr pts, h @ cs)"
    using pts arrayOf_append [OF decodes_pointOf] readVia_exact
    unfolding pointsAt_arrayOf by blast
  have rd0: "readVia pointOf a h = (Inr pts, h)" using rd [of "[]"] by simp
  show ?thesis
    unfolding regressionOnHeap_def getRegressionRMSE_def Let_def
    by (simp add: thenDo_def rd rd0 allocAll_exact alloc_def give_def)
qed


lemma regressionOnHeap_append:
  assumes pts: "pointsAt h a = Some pts"
  shows "\<exists>cs'. regressionOnHeap tr a (map dp_time pts) (h @ cs)
                 = (Inr (getRegressionRMSE tr pts), h @ cs')"
proof -
  have "pointsAt (h @ cs) a = Some pts"
    using pts arrayOf_append [OF decodes_pointOf] unfolding pointsAt_arrayOf by blast
  then obtain cs' where "regressionOnHeap tr a (map dp_time pts) (h @ cs)
                 = (Inr (getRegressionRMSE tr pts), (h @ cs) @ cs')"
    using regressionOnHeap_value by blast
  then show ?thesis by simp
qed

lemma buildModelsOnHeap_throws:
  assumes pts: "pointsAt h a = Some pts" and mean: "ss_mean (map dp_time pts) = Inl e"
  shows "fst (buildModelsOnHeap a h) = Inl e"
proof -
  have rd: "\<And>cs. readVia pointOf a (h @ cs) = (Inr pts, h @ cs)"
    using pts arrayOf_append [OF decodes_pointOf] readVia_exact
    unfolding pointsAt_arrayOf by blast
  have rd0: "readVia pointOf a h = (Inr pts, h)" using rd [of "[]"] by simp
  show ?thesis
    unfolding buildModelsOnHeap_def Let_def
    by (simp add: thenDo_def rd rd0 alloc_def orThrow_def mean)
qed

lemma buildModelsOnHeap_value:
  assumes pts: "pointsAt h a = Some pts" and mean: "ss_mean (map dp_time pts) = Inr meanTime"
  shows "\<exists>models h'. buildModelsOnHeap a h = (Inr (meanTime, map dp_time pts, models), h')
           \<and> arrayOf modelOf h' models = Some (buildModels meanTime pts)"
proof -
  have rd: "\<And>cs. readVia pointOf a (h @ cs) = (Inr pts, h @ cs)"
    using pts arrayOf_append [OF decodes_pointOf] readVia_exact
    unfolding pointsAt_arrayOf by blast
  have rd0: "readVia pointOf a h = (Inr pts, h)" using rd [of "[]"] by simp
  obtain c1 where c1: "regressionOnHeap tr_linear a (map dp_time pts)
        (h @ [Arr (map (\<lambda>d. Num (Fin (of_int (dp_n d)))) pts), Arr (map (\<lambda>d. Num (dp_time d)) pts),
              Arr (map (\<lambda>d. Num meanTime) pts)])
      = (Inr (getRegressionRMSE tr_linear pts), h @ c1)"
    using regressionOnHeap_append [OF pts] by blast
  obtain c2 where c2: "regressionOnHeap tr_quadratic a (map dp_time pts) (h @ c1)
      = (Inr (getRegressionRMSE tr_quadratic pts), h @ c2)"
    using regressionOnHeap_append [OF pts] by blast
  obtain c3 where c3: "regressionOnHeap tr_log a (map dp_time pts) (h @ c2)
      = (Inr (getRegressionRMSE tr_log pts), h @ c3)"
    using regressionOnHeap_append [OF pts] by blast
  obtain c4 where c4: "regressionOnHeap tr_nlogn a (map dp_time pts) (h @ c3)
      = (Inr (getRegressionRMSE tr_nlogn pts), h @ c4)"
    using regressionOnHeap_append [OF pts] by blast
  define ms where "ms = buildModels meanTime pts"
  define H where "H = h @ c4"
  have front: "buildModelsOnHeap a h =
     thenDo (allocAll (map ModelObj ms)) (\<lambda>objects.
     thenDo (alloc (Arr (map Ref objects))) (\<lambda>models.
     give (meanTime, map dp_time pts, models))) H"
    unfolding buildModelsOnHeap_def Let_def ms_def buildModels_def H_def
    by (simp add: thenDo_def rd rd0 alloc_def orThrow_def mean c1 c2 c3 c4 o_def
             del: allocAll.simps)
  have run: "buildModelsOnHeap a h
      = (Inr (meanTime, map dp_time pts, length H + length ms),
         H @ map ModelObj ms @ [Arr (map Ref [length H..<length H + length ms])])"
    unfolding front by (simp add: thenDo_def allocAll_exact alloc_def give_def)
  have "arrayOf modelOf (H @ map ModelObj ms @ [Arr (map Ref [length H..<length H + length ms])])
          (length H + length ms) = Some ms"
    by (rule fresh_array [OF decodes_modelOf]) simp
  with run show ?thesis unfolding ms_def by blast
qed


lemma those_map_Some_id: "those (map Some vs) = Some vs"
  by (induction vs) simp_all

lemma copy_and_sort:
  assumes arr: "arrayOf modelOf h models = Some ms"
  shows "\<exists>h2. (if c then give ()
              else thenDo (readVia (\<lambda>h v. Some v) models) (\<lambda>refs.
                   thenDo (alloc (Arr refs)) (\<lambda>sortedByFit.
                   sortInPlace rmseOfModel sortedByFit))) h = (Inr (), h2)
            \<and> length h \<le> length h2 \<and> take (length h) h2 = h"
proof (cases c)
  case True
  then show ?thesis by (simp add: give_def)
next
  case False
  from arr obtain vs where vs: "elementsAt h models = Some vs"
    unfolding arrayOf_conv by blast
  have "elementsAt (h @ [Arr vs]) (length h) = Some vs"
    unfolding elementsAt_conv by (simp add: cellAt_def)
  then show ?thesis using False vs
    by (simp add: thenDo_def readVia_def allOf_def those_map_Some_id alloc_def sortInPlace_def)
qed

lemma analyseOnHeap_value:
  assumes arr: "arrayOf modelOf h models = Some ms"
  shows "returned (analyseOnHeap models meanTime timeValues h) = analyse ms meanTime timeValues"
proof (cases "chooseModel ms meanTime timeValues")
  case (Inl e)
  have rd1: "readVia modelOf models h = (Inr ms, h)" using arr by (rule readVia_exact)
  show ?thesis
    unfolding analyseOnHeap_def analyse_def
    by (simp add: rd1 Inl thenDo_def orThrow_def returned_def)
next
  case (Inr bestModel)
  have rd1: "readVia modelOf models h = (Inr ms, h)" using arr by (rule readVia_exact)
  obtain h2 where copy: "(if js_lt (rmse bestModel) noiseFloor then give ()
              else thenDo (readVia (\<lambda>h v. Some v) models) (\<lambda>refs.
                   thenDo (alloc (Arr refs)) (\<lambda>sortedByFit.
                   sortInPlace rmseOfModel sortedByFit))) h = (Inr (), h2)"
    and grown: "length h \<le> length h2" "take (length h) h2 = h"
    using copy_and_sort [OF arr] by blast
  have arr2: "arrayOf modelOf h2 models = Some ms"
    using decodes_modelOf arr grown by (rule arrayOf_prefix)
  have rd2: "readVia modelOf models h2 = (Inr ms, h2)" using arr2 by (rule readVia_exact)
  define fs where "fs = map (\<lambda>m. (mtype m, rmse m)) ms"
  define results where "results = length h2 + length fs"
  define h4 where "h4 = h2 @ map FitObj fs @ [Arr (map Ref [length h2..<length h2 + length fs])]"
  have fits: "map (\<lambda>m. FitObj (mtype m, rmse m)) ms = map FitObj fs"
    by (simp add: fs_def)
  have arr4: "arrayOf fitOf h4 results = Some fs"
    unfolding h4_def results_def by (rule fresh_array [OF decodes_fitOf]) simp
  obtain vs' where sort: "sortInPlace rmseOfFit results h4 = (Inr (), h4[results := Arr vs'])"
    and arr5: "arrayOf fitOf (h4[results := Arr vs']) results
                 = Some (arraySort (\<lambda>x y. js_sub (snd x) (snd y)) fs)"
    using sortInPlace_sorts [OF decodes_fitOf _ arr4, of rmseOfFit snd]
    by (auto simp: rmseOfFit_def)
  define h5 where "h5 = h4[results := Arr vs']"
  define out where "out = ResultObj (mtype bestModel)
                            (js_round (confidenceOf ms meanTime bestModel)) results"
  have s1: "\<And>g. thenDo (readVia modelOf models) g h = g ms h"
    by (simp add: thenDo_def rd1)
  have s2: "\<And>g h. thenDo (orThrow (Inr bestModel)) g h = g bestModel h"
    by (simp add: thenDo_def orThrow_def)
  have s3: "\<And>g. thenDo (if js_lt (rmse bestModel) noiseFloor then give ()
              else thenDo (readVia (\<lambda>h v. Some v) models) (\<lambda>refs.
                   thenDo (alloc (Arr refs)) (\<lambda>sortedByFit.
                   sortInPlace rmseOfModel sortedByFit))) g h = g () h2"
    by (simp only: thenDo_def [of "if js_lt (rmse bestModel) noiseFloor then give () else _"] copy
          prod.case sum.case)
  have s4: "\<And>g. thenDo (readVia modelOf models) g h2 = g ms h2"
    by (simp add: thenDo_def rd2)
  have s5: "\<And>g. thenDo (allocAll (map FitObj fs)) g h2
              = g [length h2..<length h2 + length fs] (h2 @ map FitObj fs)"
    by (simp add: thenDo_def allocAll_exact)
  have s6: "\<And>g. thenDo (alloc (Arr (map Ref [length h2..<length h2 + length fs]))) g
                    (h2 @ map FitObj fs) = g results h4"
    by (simp add: thenDo_def alloc_def results_def h4_def)
  have s7: "\<And>g. thenDo (sortInPlace rmseOfFit results) g h4 = g () h5"
    by (simp add: thenDo_def sort h5_def)
  have run: "analyseOnHeap models meanTime timeValues h = (Inr (length h5), h5 @ [out])"
    unfolding analyseOnHeap_def Let_def
    by (simp only: s1 Inr s2 s3 s4 fits s5 s6 s7) (simp add: alloc_def out_def)
  have "cellAt (h5 @ [out]) (Ref (length h5)) = Some out" by (simp add: cellAt_def)
  moreover have "arrayOf fitOf (h5 @ [out]) results
                   = Some (arraySort (\<lambda>x y. js_sub (snd x) (snd y)) fs)"
    using decodes_fitOf arr5 unfolding h5_def by (rule arrayOf_append)
  ultimately have "resultAt (h5 @ [out]) (length h5)
      = Some \<lparr>bestFit = mtype bestModel,
               confidence = js_round (confidenceOf ms meanTime bestModel),
               results = arraySort (\<lambda>x y. js_sub (snd x) (snd y)) fs\<rparr>"
    by (simp add: resultAt_def out_def)
  then show ?thesis
    unfolding run analyse_def by (simp add: returned_def Inr fs_def)
qed


lemma determineComplexityOnHeap_value:
  assumes pts: "pointsAt h a = Some pts"
  shows "returned (determineComplexityOnHeap a h) = determineComplexity pts"
proof (cases "ss_mean (map dp_time pts)")
  case (Inl e)
  obtain r h' where run: "buildModelsOnHeap a h = (r, h')" by (cases "buildModelsOnHeap a h")
  then have "r = Inl e" using buildModelsOnHeap_throws [OF pts Inl] by simp
  then have "determineComplexityOnHeap a h = (Inl e, h')"
    using run by (simp add: determineComplexityOnHeap_def thenDo_def)
  then show ?thesis by (simp add: returned_def determineComplexity_def Inl)
next
  case (Inr meanTime)
  obtain models h1
    where run: "buildModelsOnHeap a h = (Inr (meanTime, map dp_time pts, models), h1)"
      and arr: "arrayOf modelOf h1 models = Some (buildModels meanTime pts)"
    using buildModelsOnHeap_value [OF pts Inr] by blast
  obtain vs' where sort: "sortInPlace rmseOfModel models h1 = (Inr (), h1[models := Arr vs'])"
    and arr': "arrayOf modelOf (h1[models := Arr vs']) models
                 = Some (arraySort (\<lambda>x y. js_sub (rmse x) (rmse y)) (buildModels meanTime pts))"
    using sortInPlace_sorts [OF decodes_modelOf _ arr, of rmseOfModel rmse]
    by (auto simp: rmseOfModel_def)
  have by_rmse: "(\<lambda>x y. js_sub (rmse x) (rmse y)) = byRmse"
    by (simp add: byRmse_def fun_eq_iff)
  have "determineComplexityOnHeap a h
          = analyseOnHeap models meanTime (map dp_time pts) (h1[models := Arr vs'])"
    by (simp add: determineComplexityOnHeap_def thenDo_def run sort)
  then show ?thesis
    using analyseOnHeap_value [OF arr' [unfolded by_rmse]]
    by (simp add: determineComplexity_def Inr)
qed

section \<open>The claims about the classifier\<close>

subsection \<open>C5: a flat series\<close>



subsection \<open>C7: fewer than two data points\<close>

text \<open>
  C7 as stated fails: a single data point is classified, without any error, as constant
  time with confidence 100.
\<close>

theorem single_point_counterexample:
  "determineComplexity [\<lparr>dp_n = 10, dp_time = Fin 1\<rparr>] =
     Inr \<lparr>bestFit = ''O(1) - Constant'', confidence = Fin 100,
          results = [(''O(1) - Constant'', Fin 0), (''O(log n) - Logarithmic'', Fin 0),
                     (''O(n) - Linear'', Fin 0), (''O(n log n) - Linear-ithmic'', Fin 0),
                     (''O(n^2) - Quadratic'', Fin 0)]\<rparr>"
  by (simp add: determineComplexity_def analyse_def chooseModel_def ss_mean_def ss_sum_def buildModels_def calculateRMSE_def
     getRegressionRMSE_def linearRegressionLine_def tr_linear_def tr_quadratic_def tr_log_def tr_nlogn_def
     arraySort_def byRmse_def occamStep_def Let_def ss_variance_def ss_max_def confidenceOf_def noiseFloor_def)

text \<open>
  C7, amended. The empty series fails inside \<^verbatim>\<open>ss.mean\<close>, with the plain \<^verbatim>\<open>Error\<close> of
  the statistics library; every single data point with a finite duration is classified as
  \<^verbatim>\<open>'O(1) - Constant'\<close> with confidence 100. No check on the number of points exists.
\<close>

theorem fewer_than_two_points:
  "determineComplexity [] = Inl (JsError ''Error'' ''mean requires at least one data point'')
   \<and> (\<forall>k t. \<exists>r. determineComplexity [\<lparr>dp_n = k, dp_time = Fin t\<rparr>] = Inr r
          \<and> bestFit r = ''O(1) - Constant'' \<and> confidence r = Fin 100)"
proof -
  have "determineComplexity [] = Inl (JsError ''Error'' ''mean requires at least one data point'')"
    by (simp add: determineComplexity_def ss_mean_def)
  moreover have "\<exists>r. determineComplexity [\<lparr>dp_n = k, dp_time = Fin t\<rparr>] = Inr r
          \<and> bestFit r = ''O(1) - Constant'' \<and> confidence r = Fin 100" for k t
    using flat_series_result [of "[\<lparr>dp_n = k, dp_time = Fin t\<rparr>]" t] by auto
  ultimately show ?thesis by blast
qed

subsection \<open>C3: a data point with \<open>n = 0\<close>\<close>

text \<open>
  C3 as stated fails: on \<open>(0, 1), (1, 2), (2, 3)\<close> the call returns, but not every error
  in the result is finite.
\<close>

theorem n_zero_counterexample:
  "\<not> (case determineComplexity
            [\<lparr>dp_n = 0, dp_time = Fin 1\<rparr>, \<lparr>dp_n = 1, dp_time = Fin 2\<rparr>, \<lparr>dp_n = 2, dp_time = Fin 3\<rparr>]
        of Inl e \<Rightarrow> False | Inr r \<Rightarrow> allRmseFinite r)"
proof -
  obtain r where r: "determineComplexity
            [\<lparr>dp_n = 0, dp_time = Fin 1\<rparr>, \<lparr>dp_n = 1, dp_time = Fin 2\<rparr>, \<lparr>dp_n = 2, dp_time = Fin 3\<rparr>] = Inr r"
    "(''O(log n) - Logarithmic'', NaN) \<in> set (results r)"
    using n_zero_results
      [of "[\<lparr>dp_n = 0, dp_time = Fin 1\<rparr>, \<lparr>dp_n = 1, dp_time = Fin 2\<rparr>, \<lparr>dp_n = 2, dp_time = Fin 3\<rparr>]"]
    by auto
  from r(2) have "\<not> allRmseFinite r"
    by (force simp: allRmseFinite_def list_all_iff)
  with r(1) show ?thesis by simp
qed

text \<open>
  C3, amended. When some data point has \<open>n = 0\<close>, \<^verbatim>\<open>determineComplexity\<close> does not raise;
  the point is not excluded from any regression, and the errors reported for the
  logarithmic and the linearithmic model are both \<open>NaN\<close>.
\<close>

theorem n_zero_not_excluded:
  assumes "\<exists>d\<in>set dataPoints. dp_n d = 0"
  shows "\<exists>r. determineComplexity dataPoints = Inr r
           \<and> (''O(log n) - Logarithmic'', NaN) \<in> set (results r)
           \<and> (''O(n log n) - Linear-ithmic'', NaN) \<in> set (results r)"
  using assms by (rule n_zero_results)

theorem n_zero_not_excluded_witness:
  "\<exists>r. determineComplexity [\<lparr>dp_n = 0, dp_time = Fin 5\<rparr>, \<lparr>dp_n = 10, dp_time = Fin 6\<rparr>] = Inr r
           \<and> (''O(log n) - Logarithmic'', NaN) \<in> set (results r)
           \<and> (''O(n log n) - Linear-ithmic'', NaN) \<in> set (results r)"
  using n_zero_not_excluded [of "[\<lparr>dp_n = 0, dp_time = Fin 5\<rparr>, \<lparr>dp_n = 10, dp_time = Fin 6\<rparr>]"]
  by simp

subsection \<open>C1: the range of the confidence\<close>

text \<open>
  C1. The confidence is meant to lie in \<open>[0, 100]\<close>, with the separation clamped to
  \<open>[0, 1]\<close>; the code caps the separation above only (\<^verbatim>\<open>Math.min(1, separation)\<close>), and
  the separation is negative whenever the loop has preferred a simpler model to the one
  of lowest error. On the three points \<open>(1, 2), (2, 4), (4, 1)\<close> the choice falls on the
  constant model, the fit quality is 0, the separation is \<open>-3/11\<close>, and the confidence
  returned is \<open>-8\<close>.
\<close>

theorem confidence_out_of_range:
  "determineComplexity
     [\<lparr>dp_n = 1, dp_time = Fin 2\<rparr>, \<lparr>dp_n = 2, dp_time = Fin 4\<rparr>, \<lparr>dp_n = 4, dp_time = Fin 1\<rparr>] =
     Inr \<lparr>bestFit = ''O(1) - Constant'', confidence = Fin (- 8),
          results = [(''O(n^2) - Quadratic'', Fin (sqrt (121 / 126))),
                     (''O(n log n) - Linear-ithmic'', Fin (sqrt (27 / 26))),
                     (''O(n) - Linear'', Fin (sqrt (7 / 6))),
                     (''O(log n) - Logarithmic'', Fin (sqrt (25 / 18))),
                     (''O(1) - Constant'', Fin (sqrt (14 / 9)))]\<rparr>"
proof -
  let ?pts = "[\<lparr>dp_n = 1, dp_time = Fin 2\<rparr>, \<lparr>dp_n = 2, dp_time = Fin 4\<rparr>, \<lparr>dp_n = 4, dp_time = Fin 1\<rparr>]"
  let ?\<mu> = "Fin (7 / 3)"
  define c where "c = \<lparr>mtype = ''O(1) - Constant'', rmse = Fin (sqrt (14 / 9)), complexity = 1\<rparr>"
  define lg where "lg = \<lparr>mtype = ''O(log n) - Logarithmic'', rmse = Fin (sqrt (25 / 18)), complexity = 2\<rparr>"
  define li where "li = \<lparr>mtype = ''O(n) - Linear'', rmse = Fin (sqrt (7 / 6)), complexity = 3\<rparr>"
  define nl where "nl = \<lparr>mtype = ''O(n log n) - Linear-ithmic'', rmse = Fin (sqrt (27 / 26)), complexity = 4\<rparr>"
  define q where "q = \<lparr>mtype = ''O(n^2) - Quadratic'', rmse = Fin (sqrt (121 / 126)), complexity = 5\<rparr>"
  note defs = c_def lg_def li_def nl_def q_def
  have ty [simp]: "mtype c = ''O(1) - Constant''" "mtype lg = ''O(log n) - Logarithmic''"
      "mtype li = ''O(n) - Linear''" "mtype nl = ''O(n log n) - Linear-ithmic''"
      "mtype q = ''O(n^2) - Quadratic''"
    by (simp_all add: defs)
  have er [simp]: "rmse c = Fin (sqrt (14 / 9))" "rmse lg = Fin (sqrt (25 / 18))"
      "rmse li = Fin (sqrt (7 / 6))" "rmse nl = Fin (sqrt (27 / 26))" "rmse q = Fin (sqrt (121 / 126))"
    by (simp_all add: defs)
  have rk [simp]: "complexity c = 1" "complexity lg = 2" "complexity li = 3" "complexity nl = 4"
      "complexity q = 5"
    by (simp_all add: defs)
  have ne [simp]: "q \<noteq> c" by (simp add: defs)
  define ms where "ms = [q, nl, li, lg, c]"
  have mean: "ss_mean (map dp_time ?pts) = Inr ?\<mu>"
    by (simp add: ss_mean_def ss_sum_def)
  have models: "buildModels ?\<mu> ?pts = [c, lg, li, nl, q]"
    by (simp add: buildModels_def regression_defs defs)
  have sorted: "arraySort byRmse [c, lg, li, nl, q] = ms"
    by (simp add: arraySort_def byRmse_def ms_def)
  have again: "arraySort byRmse ms = ms"
    by (simp add: arraySort_def byRmse_def ms_def)
  have o1: "find (\<lambda>m. str_includes (mtype m) ''O(1)'') ms = Some c"
    by (simp add: ms_def)
  have s1: "occamStep ms ?\<mu> nl q = nl"
    by (simp add: occamStep_def Let_def within_tolerance_sqrt)
  have s2: "occamStep ms ?\<mu> li nl = li"
    by (simp add: occamStep_def Let_def within_tolerance_sqrt)
  have "1 \<le> sqrt (25 / 18 :: real)" by simp
  then have "\<not> 30 * sqrt (25 / 18) < (7 :: real)" by linarith
  then have s3: "occamStep ms ?\<mu> lg li = lg"
    by (simp add: occamStep_def Let_def within_tolerance_sqrt o1)
  have s4: "occamStep ms ?\<mu> c lg = c"
    by (simp add: occamStep_def Let_def within_tolerance_sqrt)
  have loop: "fold (occamStep ms ?\<mu>) [nl, li, lg, c] q = c"
    by (simp add: s1 s2 s3 s4)
  have var: "\<exists>v. ss_variance (map dp_time ?pts) = Inr v"
    by (simp add: ss_variance_def ss_mean_def)
  have mx: "ss_max (map dp_time ?pts) = Inr (Fin 4)"
    by (simp add: ss_max_def)
  have choice: "chooseModel ms ?\<mu> (map dp_time ?pts) = Inr c"
    using var loop mx unfolding chooseModel_def by (auto simp add: ms_def Let_def)
  have "sqrt (14 / 9) / sqrt (121 / 126) = sqrt ((14 / 9) / (121 / 126) :: real)"
    by (simp only: real_sqrt_divide)
  also have "\<dots> = sqrt ((14 / 11)\<^sup>2)" by (simp add: power2_eq_square)
  also have "\<dots> = 14 / 11" by simp
  finally have ratio: "sqrt (14 / 9) / sqrt (121 / 126) = (14 / 11 :: real)" .
  have "(sqrt (121 / 126) - sqrt (14 / 9)) / sqrt (121 / 126)
          = (1 :: real) - sqrt (14 / 9) / sqrt (121 / 126)"
    by (simp add: field_simps)
  then have d: "(sqrt (121 / 126) - sqrt (14 / 9)) / sqrt (121 / 126) = (- 3 / 11 :: real)"
    by (simp add: ratio)
  have "js_div (js_sub (rmse q) (rmse c)) (js_or (rmse q) (Fin 1)) = Fin (- 3 / 11)"
    using d by (simp add: js_or_def)
  moreover have "secondBestOf (arraySort byRmse ms) c = Some q"
    unfolding again by (simp add: ms_def secondBestOf_def)
  ultimately have sep: "separationOf ms c = Fin (- 3 / 11)"
    by (simp add: separationOf_def js_min_def del: er)
  have "1 \<le> sqrt (14 / 9 :: real)" by simp
  then have "\<not> sqrt (14 / 9) * 1000000000 < (1 :: real)" by linarith
  then have nf: "\<not> js_lt (rmse c) noiseFloor" by (simp add: noiseFloor_def)
  have "(7 / 6)\<^sup>2 < (14 / 9 :: real)" by (simp add: power2_eq_square)
  then have "7 / 6 < sqrt (14 / 9 :: real)" by (rule real_less_rsqrt)
  then have fq: "js_max (Fin 0) (js_sub (Fin 1) (js_mul (js_div (rmse c) ?\<mu>) (Fin 2))) = Fin 0"
    by (simp add: js_max_def)
  have conf: "confidenceOf ms ?\<mu> c = Fin (- 90 / 11)"
    using nf by (simp add: confidenceOf_def Let_def fq sep del: er)
  have "\<lfloor>(- 90 / 11 :: real) + 1 / 2\<rfloor> = - 8" by (simp add: floor_eq_iff)
  then have rnd: "js_round (Fin (- 90 / 11)) = Fin (- 8)" by simp
  have res: "arraySort (\<lambda>a b. js_sub (snd a) (snd b)) (map (\<lambda>m. (mtype m, rmse m)) ms)
     = [(''O(n^2) - Quadratic'', Fin (sqrt (121 / 126))),
        (''O(n log n) - Linear-ithmic'', Fin (sqrt (27 / 26))),
        (''O(n) - Linear'', Fin (sqrt (7 / 6))),
        (''O(log n) - Logarithmic'', Fin (sqrt (25 / 18))),
        (''O(1) - Constant'', Fin (sqrt (14 / 9)))]"
    by (simp add: arraySort_def ms_def)
  have "analyse ms ?\<mu> (map dp_time ?pts) =
     Inr \<lparr>bestFit = ''O(1) - Constant'', confidence = Fin (- 8),
          results = [(''O(n^2) - Quadratic'', Fin (sqrt (121 / 126))),
                     (''O(n log n) - Linear-ithmic'', Fin (sqrt (27 / 26))),
                     (''O(n) - Linear'', Fin (sqrt (7 / 6))),
                     (''O(log n) - Logarithmic'', Fin (sqrt (25 / 18))),
                     (''O(1) - Constant'', Fin (sqrt (14 / 9)))]\<rparr>"
    unfolding analyse_def choice by (simp only: sum.case conf rnd res ty)
  then show ?thesis
    by (simp only: determineComplexity_def Let_def mean sum.case models sorted)
qed

subsection \<open>C2: the choice of the simplest model\<close>




subsection \<open>C10: the input is not mutated\<close>

text \<open>
  C10. The classifier does not mutate its input. On the store: whatever
  \<^verbatim>\<open>determineComplexity\<close> returns or throws, every cell that existed before the call
  holds afterwards what it held before; in particular the array \<^verbatim>\<open>dataPoints\<close> has
  the same elements in the same order, and each of them the same \<^verbatim>\<open>n\<close> and
  \<^verbatim>\<open>time\<close>. The arrays that are sorted in place are the function's own. What the
  caller reads from the returned object is the value of the pure \<open>determineComplexity\<close>.
\<close>

theorem input_not_mutated:
  assumes "determineComplexityOnHeap dataPoints h = (res, h')"
  shows "length h \<le> length h' \<and> (\<forall>p<length h. h' ! p = h ! p)
       \<and> (\<forall>pts. pointsAt h dataPoints = Some pts \<longrightarrow>
             pointsAt h' dataPoints = Some pts \<and> returned (res, h') = determineComplexity pts)"
proof -
  have k: "length h \<le> length h'" "take (length h) h' = h"
    using keeps_determineComplexityOnHeap [of "length h" dataPoints] assms
    unfolding keeps_def by auto
  have "\<forall>p<length h. h' ! p = h ! p"
  proof (intro allI impI)
    fix p assume p: "p < length h"
    then have "h' ! p = take (length h) h' ! p" by simp
    then show "h' ! p = h ! p" using k(2) by simp
  qed
  moreover have "returned (res, h') = determineComplexity pts"
    if "pointsAt h dataPoints = Some pts" for pts
    using determineComplexityOnHeap_value [OF that] assms by simp
  ultimately show ?thesis using k pointsAt_prefix by blast
qed

theorem input_not_mutated_witness:
  "pointsAt (snd (determineComplexityOnHeap 2
       [PointObj \<lparr>dp_n = 10, dp_time = Fin 1\<rparr>, PointObj \<lparr>dp_n = 20, dp_time = Fin 3\<rparr>,
        Arr [Ref 0, Ref 1]])) 2
     = Some [\<lparr>dp_n = 10, dp_time = Fin 1\<rparr>, \<lparr>dp_n = 20, dp_time = Fin 3\<rparr>]
   \<and> returned (determineComplexityOnHeap 2
       [PointObj \<lparr>dp_n = 10, dp_time = Fin 1\<rparr>, PointObj \<lparr>dp_n = 20, dp_time = Fin 3\<rparr>,
        Arr [Ref 0, Ref 1]])
     = determineComplexity [\<lparr>dp_n = 10, dp_time = Fin 1\<rparr>, \<lparr>dp_n = 20, dp_time = Fin 3\<rparr>]"
proof -
  let ?h = "[PointObj \<lparr>dp_n = 10, dp_time = Fin 1\<rparr>, PointObj \<lparr>dp_n = 20, dp_time = Fin 3\<rparr>,
        Arr [Ref 0, Ref 1]]"
  have "pointsAt ?h 2 = Some [\<lparr>dp_n = 10, dp_time = Fin 1\<rparr>, \<lparr>dp_n = 20, dp_time = Fin 3\<rparr>]"
    by (simp add: pointsAt_def elementsAt_def cellAt_def allOf_def pointOf_def)
  then show ?thesis
    using input_not_mutated [of 2 ?h "fst (determineComplexityOnHeap 2 ?h)"
        "snd (determineComplexityOnHeap 2 ?h)"]
    by simp
qed

section \<open>The claims about the measurement engine\<close>

subsection \<open>C4: an algorithm that throws\<close>

text \<open>
  C4 as stated fails: the algorithm that throws a \<^verbatim>\<open>TypeError\<close> on its call number 100
  (the first call of the calibration, after the hundred calls of the warm-up) makes
  \<^verbatim>\<open>runAnalysis\<close> raise that very \<^verbatim>\<open>TypeError\<close>: no \<^verbatim>\<open>AlgorithmExecutionError\<close> wraps it.
\<close>

theorem thrown_error_counterexample:
  "runAnalysis (throwingAlgorithm 100) steppingClock [2] 10 (0, 0)
     = (Inl (JsError ''TypeError'' ''boom''),
        ((101, 1), replicate 100 (Invoke [0, 1] None)
                   @ [Clock 0, Invoke [0, 1] (Some (JsError ''TypeError'' ''boom''))]))"
  by (rule run_throwing_in_calibration)

text \<open>
  C4, amended. When an invocation of the algorithm throws during the warm-up, the
  calibration or a timed batch, \<^verbatim>\<open>runAnalysis\<close> raises the value that was thrown, as it
  is: the throwing invocation is the last thing the run does, and no data point is
  returned.
\<close>

theorem thrown_error_propagates:
  assumes "runAnalysis alg now inputSizes iterations w = (res, s')"
    and "Invoke arr (Some e) \<in> set (snd s')"
  shows "res = Inl e \<and> last (snd s') = Invoke arr (Some e)"
  using assms by (rule thrown_propagates)

theorem thrown_error_propagates_witness:
  "fst (runAnalysis (throwingAlgorithm 0) steppingClock [2] 10 (0, 0))
      = Inl (JsError ''TypeError'' ''boom'')
   \<and> last (snd (snd (runAnalysis (throwingAlgorithm 0) steppingClock [2] 10 (0, 0))))
      = Invoke [0, 1] (Some (JsError ''TypeError'' ''boom''))"
  using thrown_error_propagates
    [of "throwingAlgorithm 0" steppingClock "[2]" 10 "(0, 0)"
        "fst (runAnalysis (throwingAlgorithm 0) steppingClock [2] 10 (0, 0))"
        "snd (runAnalysis (throwingAlgorithm 0) steppingClock [2] 10 (0, 0))"
        "[0, 1]" "JsError ''TypeError'' ''boom''"]
  by (simp add: run_throwing_in_warmup)

subsection \<open>C6: negative sizes\<close>

text \<open>
  C6 as stated fails: \<^verbatim>\<open>generateInputArray(-3)\<close> is the empty array, and \<^verbatim>\<open>runAnalysis\<close> on
  the sizes \<open>[-3]\<close> returns the data point of size \<open>-3\<close>.
\<close>

theorem negative_size_counterexample:
  "generateInputArray (- 3) = Inr []
   \<and> fst (runAnalysis quietAlgorithm steppingClock [- 3] 10 (0, 0))
       = Inr [\<lparr>dp_n = - 3, dp_time = Fin 5\<rparr>]"
  using run_negative by (simp add: gen_negative)

text \<open>
  C6, amended. For every negative \<open>n\<close>, \<^verbatim>\<open>generateInputArray\<close> returns the empty array;
  and \<^verbatim>\<open>runAnalysis\<close>, with an algorithm that never throws, at least one iteration and
  sizes below \<open>2^32\<close> (negative ones included), returns one data point for each requested
  size, in the order of the request.
\<close>

theorem negative_sizes_measured:
  assumes "neverThrows alg" and "\<forall>k\<in>set inputSizes. k < 2 ^ 32" and "0 < iterations"
  shows "(\<forall>k<0. generateInputArray k = Inr [])
       \<and> (\<exists>dataPoints s'. runAnalysis alg now inputSizes iterations w = (Inr dataPoints, s')
             \<and> map dp_n dataPoints = inputSizes)"
  using runAnalysis_ok [OF assms] gen_negative by blast

theorem negative_sizes_measured_witness:
  "generateInputArray (- 1) = Inr []
   \<and> (\<exists>dataPoints s'. runAnalysis quietAlgorithm frozenClock [- 3, 2] 10 (0 :: nat) = (Inr dataPoints, s')
             \<and> map dp_n dataPoints = [- 3, 2])"
  using negative_sizes_measured [of quietAlgorithm "[- 3, 2]" 10 frozenClock "0 :: nat"]
  by (simp add: neverThrows_def quietAlgorithm_def)

subsection \<open>C8: the warm-up\<close>

text \<open>
  C8. The warm-up runs before any reading of the clock, a hundred times, on the array of
  the first requested size, \<^verbatim>\<open>inputSizes[0]\<close>, which is the smallest size only when the
  list starts with it. On the sizes \<open>[3, 1]\<close> the first hundred events of the run are
  calls on \<open>[0, 1, 2]\<close>, the array of size 3, while the array of the smallest size is
  \<open>[0]\<close>.
\<close>

theorem warmup_on_first_size:
  "take 100 (snd (snd (runAnalysis quietAlgorithm steppingClock [3, 1] 10 (0, 0))))
     = replicate 100 (Invoke [0, 1, 2] None)
   \<and> generateInputArray 1 = Inr [0]"
proof -
  have g: "generateInputArray 3 = Inr [0, 1, 2]" by (simp add: generateInputArray_def upt_rec)
  have w: "warmup quietAlgorithm [3, 1] ((0 :: nat, 0 :: nat), [])
            = (Inr (), ((0, 0), replicate 100 (Invoke [0, 1, 2] None)))"
    by (simp add: warmup_def g repeatInvoke_quiet)
  obtain res s' where m: "measureAll quietAlgorithm steppingClock 10 [3, 1]
        ((0, 0), replicate 100 (Invoke [0, 1, 2] None)) = (res, s')"
    by (metis prod.exhaust)
  obtain new where "snd s' = replicate 100 (Invoke [0, 1, 2] None) @ new"
    using measureAll_log [OF m] by auto
  then have "take 100 (snd s') = replicate 100 (Invoke [0, 1, 2] None)" by simp
  moreover have "runAnalysis quietAlgorithm steppingClock [3, 1] 10 (0, 0) = (res, s')"
    by (simp only: runAnalysis_def w prod.case sum.case m)
  moreover have "generateInputArray 1 = Inr [0]" by (simp add: generateInputArray_def)
  ultimately show ?thesis by simp
qed

subsection \<open>C9: the calibration ends\<close>



end
